theory Spec2Isabelle
  imports Main
begin

section \<open>The expression tree of \<^verbatim>\<open>pybamm/expression_tree/symbol.py\<close>\<close>

text \<open>
  \<^verbatim>\<open>Symbol\<close> is a Python class on top of \<^verbatim>\<open>anytree.NodeMixin\<close>. Its instances are
  mutable objects that refer to each other, and \<^verbatim>\<open>copy.copy\<close> makes shallow copies of
  them, so the model keeps an explicit store: objects and list objects live at
  addresses, and every operation takes the store and returns the new one. An exception
  does not undo what was written before it was raised, so a failing operation returns
  the store as well.
\<close>

subsection \<open>Classes, objects, the store\<close>

text \<open>
  The concrete classes: \<^verbatim>\<open>Symbol\<close> itself and the four operator classes that
  \<^verbatim>\<open>__add__\<close>, \<^verbatim>\<open>__sub__\<close>, \<^verbatim>\<open>__mul__\<close> and \<^verbatim>\<open>__truediv__\<close> instantiate.
\<close>

datatype operator = Addition | Subtraction | Multiplication | Division

datatype cls = Symbol | BinaryOperator operator

type_synonym addr = nat
type_synonym lref = nat

text \<open>
  The instance dictionary of a node: \<^verbatim>\<open>_name\<close>, and the two private attributes of
  \<^verbatim>\<open>NodeMixin\<close>. \<^verbatim>\<open>__parent\<close> is read through \<^verbatim>\<open>try ... except AttributeError\<close> as
  \<^verbatim>\<open>None\<close>, so a missing attribute and \<^verbatim>\<open>None\<close> are one case. \<^verbatim>\<open>__children\<close> holds a
  reference to a list object and is missing until the first child is attached.
\<close>

record node =
  ncls :: cls
  nname :: string
  nparent :: "addr option"
  nchildren :: "lref option"

record heap =
  nodes :: "node list"
  lists :: "addr list list"

datatype error =
    NotImplementedError string
  | AssertionError string
  | LoopError
  | BadReference
  | Diverges

text \<open>
  \<^const>\<open>BadReference\<close> and \<^const>\<open>Diverges\<close> are not Python exceptions: the first is the
  outcome of following an address that the store does not hold (Python has no such
  references), the second that of a loop over parent links that never ends.
\<close>

type_synonym 'a result = "(error + 'a) \<times> heap"

datatype pyvalue = Ref addr | IntValue int | StrValue string | NoneValue

definition node_at :: "heap \<Rightarrow> addr \<Rightarrow> node option" where
  "node_at hp a = (if a < length (nodes hp) then Some (nodes hp ! a) else None)"

definition list_at :: "heap \<Rightarrow> lref \<Rightarrow> addr list option" where
  "list_at hp l = (if l < length (lists hp) then Some (lists hp ! l) else None)"

subsection \<open>\<^verbatim>\<open>anytree.NodeMixin\<close> and \<^verbatim>\<open>copy.copy\<close>\<close>

text \<open>
  \<^verbatim>\<open>Symbol\<close> inherits its tree structure from the library class \<^verbatim>\<open>anytree.NodeMixin\<close>
  and copies children with \<^verbatim>\<open>copy.copy\<close> of the standard library. Neither is part of the
  repository; the definitions of this subsection follow the code of the library: the
  property \<^verbatim>\<open>children\<close>, the setter of \<^verbatim>\<open>parent\<close> with \<^verbatim>\<open>__check_loop\<close>, \<^verbatim>\<open>__detach\<close>
  and \<^verbatim>\<open>__attach\<close> and their two assertions, and the shallow copy of an instance
  dictionary.
\<close>

text \<open>
  \<^verbatim>\<open>NodeMixin.children\<close> is \<^verbatim>\<open>tuple(self.__children_)\<close>: the children in stored
  order. (The library also stores a new empty list in a node that had none; no
  operation of this model can tell, and the read is modelled without it.)
\<close>

definition children :: "heap \<Rightarrow> addr \<Rightarrow> addr list option" where
  "children hp a =
     (case node_at hp a of
        None \<Rightarrow> None
      | Some nd \<Rightarrow>
          (case nchildren nd of
             None \<Rightarrow> Some []
           | Some l \<Rightarrow> list_at hp l))"

definition parent :: "heap \<Rightarrow> addr \<Rightarrow> addr option" where
  "parent hp a = (case node_at hp a of None \<Rightarrow> None | Some nd \<Rightarrow> nparent nd)"

text \<open>
  The private \<^verbatim>\<open>__children_\<close> that \<^verbatim>\<open>__attach\<close> and \<^verbatim>\<open>__detach\<close> write through: the
  node's list, created empty and stored in the node when it has none.
\<close>

definition children_list :: "heap \<Rightarrow> addr \<Rightarrow> (lref \<times> heap) option" where
  "children_list hp a =
     (case node_at hp a of
        None \<Rightarrow> None
      | Some nd \<Rightarrow>
          (case nchildren nd of
             Some l \<Rightarrow> Some (l, hp)
           | None \<Rightarrow>
               Some (length (lists hp),
                     hp\<lparr>nodes := (nodes hp)[a := nd\<lparr>nchildren := Some (length (lists hp))\<rparr>],
                        lists := lists hp @ [[]]\<rparr>)))"

text \<open>
  \<^verbatim>\<open>NodeMixin.path\<close>: the nodes from the root down to the node, found by a
  \<^verbatim>\<open>while node:\<close> loop over the parent links. The first argument bounds the number of
  links followed.
\<close>

fun path :: "nat \<Rightarrow> heap \<Rightarrow> addr \<Rightarrow> addr list option" where
  "path 0 hp a = None"
| "path (Suc n) hp a =
     (case node_at hp a of
        None \<Rightarrow> None
      | Some nd \<Rightarrow>
          (case nparent nd of
             None \<Rightarrow> Some [a]
           | Some p \<Rightarrow> map_option (\<lambda>ps. ps @ [a]) (path n hp p)))"

text \<open>
  \<^verbatim>\<open>__check_loop(node)\<close>: a node is not made its own parent nor the parent of one of
  its ancestors. A chain of parent links longer than the number of objects is cyclic.
\<close>

definition check_loop :: "heap \<Rightarrow> addr \<Rightarrow> addr option \<Rightarrow> error option" where
  "check_loop hp a v =
     (case v of
        None \<Rightarrow> None
      | Some p \<Rightarrow>
          if p = a then Some LoopError
          else (case path (length (nodes hp)) hp p of
                  None \<Rightarrow> Some (if p < length (nodes hp) then Diverges else BadReference)
                | Some ps \<Rightarrow> if a \<in> set ps then Some LoopError else None))"

definition detach :: "heap \<Rightarrow> addr \<Rightarrow> addr option \<Rightarrow> unit result" where
  "detach hp a par =
     (case par of
        None \<Rightarrow> (Inr (), hp)
      | Some p \<Rightarrow>
          (case children_list hp p of
             None \<Rightarrow> (Inl BadReference, hp)
           | Some (l, hp1) \<Rightarrow>
               (case (list_at hp1 l, node_at hp1 a) of
                  (Some pc, Some nd) \<Rightarrow>
                    if a \<in> set pc
                    then (Inr (), hp1\<lparr>nodes := (nodes hp1)[a := nd\<lparr>nparent := None\<rparr>],
                                      lists := (lists hp1)[l := remove1 a pc]\<rparr>)
                    else (Inl (AssertionError ''Tree internal data is corrupt.''), hp1)
                | _ \<Rightarrow> (Inl BadReference, hp1))))"

definition attach :: "heap \<Rightarrow> addr \<Rightarrow> addr option \<Rightarrow> unit result" where
  "attach hp a par =
     (case par of
        None \<Rightarrow> (Inr (), hp)
      | Some p \<Rightarrow>
          (case children_list hp p of
             None \<Rightarrow> (Inl BadReference, hp)
           | Some (l, hp1) \<Rightarrow>
               (case (list_at hp1 l, node_at hp1 a) of
                  (Some pc, Some nd) \<Rightarrow>
                    if a \<notin> set pc
                    then (Inr (), hp1\<lparr>nodes := (nodes hp1)[a := nd\<lparr>nparent := Some p\<rparr>],
                                      lists := (lists hp1)[l := pc @ [a]]\<rparr>)
                    else (Inl (AssertionError ''Tree internal data is corrupt.''), hp1)
                | _ \<Rightarrow> (Inl BadReference, hp1))))"

text \<open>The setter of \<^verbatim>\<open>NodeMixin.parent\<close>.\<close>

definition set_parent :: "heap \<Rightarrow> addr \<Rightarrow> addr option \<Rightarrow> unit result" where
  "set_parent hp a v =
     (case node_at hp a of
        None \<Rightarrow> (Inl BadReference, hp)
      | Some nd \<Rightarrow>
          if nparent nd = v then (Inr (), hp)
          else (case check_loop hp a v of
                  Some e \<Rightarrow> (Inl e, hp)
                | None \<Rightarrow>
                    (case detach hp a (nparent nd) of
                       (Inl e, hp1) \<Rightarrow> (Inl e, hp1)
                     | (Inr u, hp1) \<Rightarrow> attach hp1 a v)))"

text \<open>
  \<^verbatim>\<open>copy.copy\<close> of an object without \<^verbatim>\<open>__copy__\<close>: a new object of the same class
  whose dictionary holds the same values. The copy refers to the same list object and
  to the same parent as the original.
\<close>

definition copy_copy :: "heap \<Rightarrow> addr \<Rightarrow> addr result" where
  "copy_copy hp a =
     (case node_at hp a of
        None \<Rightarrow> (Inl BadReference, hp)
      | Some nd \<Rightarrow> (Inr (length (nodes hp)), hp\<lparr>nodes := nodes hp @ [nd]\<rparr>))"

subsection \<open>\<^verbatim>\<open>Symbol.__init__\<close>\<close>

text \<open>
  The loop \<^verbatim>\<open>for child in children: copy.copy(child).parent = self\<close> over the
  elements of the collection, in order. The loop takes the elements that the list has
  when it begins; the list is not changed while it runs (this is proved below for
  every well-formed store), so these are the elements that Python's iterator yields.
\<close>

fun attach_children :: "heap \<Rightarrow> addr \<Rightarrow> addr list \<Rightarrow> unit result" where
  "attach_children hp self [] = (Inr (), hp)"
| "attach_children hp self (child # rest) =
     (case copy_copy hp child of
        (Inl e, hp1) \<Rightarrow> (Inl e, hp1)
      | (Inr c, hp1) \<Rightarrow>
          (case set_parent hp1 c (Some self) of
             (Inl e, hp2) \<Rightarrow> (Inl e, hp2)
           | (Inr u, hp2) \<Rightarrow> attach_children hp2 self rest))"

text \<open>
  The constructor call \<^verbatim>\<open>C(name, children)\<close> for a class \<^verbatim>\<open>C\<close> that runs
  \<^verbatim>\<open>Symbol.__init__\<close>: the new object gets its name, then the children of the list
  object \<open>l\<close> are attached.
\<close>

definition Symbol_init :: "heap \<Rightarrow> cls \<Rightarrow> string \<Rightarrow> lref \<Rightarrow> addr result" where
  "Symbol_init hp c name l =
     (let self = length (nodes hp);
          hp0 = hp\<lparr>nodes := nodes hp @
                  [\<lparr>ncls = c, nname = name, nparent = None, nchildren = None\<rparr>]\<rparr>
      in case list_at hp0 l of
           None \<Rightarrow> (Inl BadReference, hp0)
         | Some cs \<Rightarrow>
             (case attach_children hp0 self cs of
                (Inl e, hp1) \<Rightarrow> (Inl e, hp1)
              | (Inr u, hp1) \<Rightarrow> (Inr self, hp1)))"

text \<open>
  The default value of \<^verbatim>\<open>children\<close> is one list object, made when the \<^verbatim>\<open>def\<close>
  statement runs and used by every call that passes no children. It is the first list
  of the store.
\<close>

definition default_children :: lref where
  "default_children = 0"

definition initial_heap :: heap where
  "initial_heap = \<lparr>nodes = [], lists = [[]]\<rparr>"

definition Symbol_new :: "heap \<Rightarrow> string \<Rightarrow> addr result" where
  "Symbol_new hp name = Symbol_init hp Symbol name default_children"

subsection \<open>The arithmetic operators\<close>

definition operator_name :: "operator \<Rightarrow> string" where
  "operator_name op =
     (case op of Addition \<Rightarrow> ''+'' | Subtraction \<Rightarrow> ''-''
               | Multiplication \<Rightarrow> ''*'' | Division \<Rightarrow> ''/'')"

text \<open>
  Modelled from the spec: the constructors \<^verbatim>\<open>pybamm.Addition\<close>,
  \<^verbatim>\<open>pybamm.Subtraction\<close>, \<^verbatim>\<open>pybamm.Multiplication\<close> and \<^verbatim>\<open>pybamm.Division\<close>, whose
  module is not among the source files. The specification gives their result as a new
  composite node whose two children are clones of \<^verbatim>\<open>self\<close> and \<^verbatim>\<open>other\<close> (in that
  order), named by the operator's canonical symbol: the call builds the list
  \<^verbatim>\<open>[left, right]\<close> and runs \<^verbatim>\<open>Symbol.__init__\<close> on it.
\<close>

definition BinaryOperator_new :: "heap \<Rightarrow> operator \<Rightarrow> addr \<Rightarrow> addr \<Rightarrow> addr result" where
  "BinaryOperator_new hp op left right =
     Symbol_init (hp\<lparr>lists := lists hp @ [[left, right]]\<rparr>)
       (BinaryOperator op) (operator_name op) (length (lists hp))"

text \<open>
  \<^verbatim>\<open>isinstance(other, Symbol)\<close>: every object of the store is an instance of
  \<^verbatim>\<open>Symbol\<close> or of one of its subclasses; numbers, strings and \<^verbatim>\<open>None\<close> are not.
\<close>

fun isinstance_Symbol :: "pyvalue \<Rightarrow> bool" where
  "isinstance_Symbol (Ref b) = True"
| "isinstance_Symbol v = False"

text \<open>
  The common body of \<^verbatim>\<open>__add__\<close>, \<^verbatim>\<open>__sub__\<close>, \<^verbatim>\<open>__mul__\<close> and \<^verbatim>\<open>__truediv__\<close>;
  \<^verbatim>\<open>raise NotImplementedError\<close> raises the exception without a message.
\<close>

definition binary_operator :: "operator \<Rightarrow> heap \<Rightarrow> addr \<Rightarrow> pyvalue \<Rightarrow> addr result" where
  "binary_operator op hp self other =
     (case other of
        Ref b \<Rightarrow> BinaryOperator_new hp op self b
      | _ \<Rightarrow> (Inl (NotImplementedError []), hp))"

definition Symbol_add :: "heap \<Rightarrow> addr \<Rightarrow> pyvalue \<Rightarrow> addr result" where
  "Symbol_add hp self other =
     (if isinstance_Symbol other then binary_operator Addition hp self other
      else (Inl (NotImplementedError []), hp))"

definition Symbol_sub :: "heap \<Rightarrow> addr \<Rightarrow> pyvalue \<Rightarrow> addr result" where
  "Symbol_sub hp self other =
     (if isinstance_Symbol other then binary_operator Subtraction hp self other
      else (Inl (NotImplementedError []), hp))"

definition Symbol_mul :: "heap \<Rightarrow> addr \<Rightarrow> pyvalue \<Rightarrow> addr result" where
  "Symbol_mul hp self other =
     (if isinstance_Symbol other then binary_operator Multiplication hp self other
      else (Inl (NotImplementedError []), hp))"

definition Symbol_truediv :: "heap \<Rightarrow> addr \<Rightarrow> pyvalue \<Rightarrow> addr result" where
  "Symbol_truediv hp self other =
     (if isinstance_Symbol other then binary_operator Division hp self other
      else (Inl (NotImplementedError []), hp))"

subsection \<open>\<^verbatim>\<open>Symbol.evaluate\<close>\<close>

text \<open>
  The base method raises \<^verbatim>\<open>NotImplementedError\<close> with a message formatted from
  \<^verbatim>\<open>str(self)\<close>, which is the name, and from \<^verbatim>\<open>type(self)\<close>. How the interpreter
  prints a class is the parameter \<open>type_str\<close>. The message is a triple-quoted string
  over two lines, the second indented by fifteen blanks.
\<close>

definition Symbol_str :: "node \<Rightarrow> string" where
  "Symbol_str nd = nname nd"

definition evaluate_message :: "string \<Rightarrow> string \<Rightarrow> string" where
  "evaluate_message s ty =
     ''method self.evaluate() not implemented'' @ [CHR 0x0A] @ replicate 15 (CHR '' '')
       @ ''for symbol '' @ s @ '' of type '' @ ty"

definition Symbol_evaluate ::
  "(cls \<Rightarrow> string) \<Rightarrow> heap \<Rightarrow> addr \<Rightarrow> 't option \<Rightarrow> 'y option \<Rightarrow> 'v result" where
  "Symbol_evaluate type_str hp self t y =
     (case node_at hp self of
        None \<Rightarrow> (Inl BadReference, hp)
      | Some nd \<Rightarrow>
          (Inl (NotImplementedError (evaluate_message (Symbol_str nd) (type_str (ncls nd)))),
           hp))"

subsection \<open>\<^verbatim>\<open>Symbol.id\<close>\<close>

text \<open>
  \<^verbatim>\<open>hash((self.__class__, self.name) + tuple([child.id for child in self.children]))\<close>.
  The tuple holds the class, the name and the children's ids. Python's \<^verbatim>\<open>hash\<close> is
  the parameter \<open>H\<close>: the interpreter fixes it for one process, and the source does
  not say more about it. The property calls itself on every child; the first argument
  bounds the depth of these calls, and \<^const>\<open>None\<close> says that the bound was too small
  (or that an address was not in the store).
\<close>

datatype hashable = HClass cls | HStr string | HInt int

fun Symbol_id :: "(hashable list \<Rightarrow> int) \<Rightarrow> nat \<Rightarrow> heap \<Rightarrow> addr \<Rightarrow> int option" where
  "Symbol_id H 0 hp a = None"
| "Symbol_id H (Suc n) hp a =
     (case node_at hp a of
        None \<Rightarrow> None
      | Some nd \<Rightarrow>
          (case children hp a of
             None \<Rightarrow> None
           | Some ks \<Rightarrow>
               (case those (map (Symbol_id H n hp) ks) of
                  None \<Rightarrow> None
                | Some ids \<Rightarrow>
                    Some (H (HClass (ncls nd) # HStr (nname nd) # map HInt ids)))))"

subsection \<open>\<^verbatim>\<open>Symbol.pre_order\<close>\<close>

text \<open>
  \<^verbatim>\<open>anytree.PreOrderIter(self)\<close> is an iterator object over a recursive generator: it
  yields a node, and when it is resumed it reads that node's children and goes through
  them before it continues with the node's siblings. Its state is the node yielded
  last, if its children are still to be read, and the stack of the siblings still to
  be visited. Iterator objects live in a store of their own.
\<close>

datatype cursor = Cursor "addr option" "addr list list"

type_synonym iterators = "cursor list"

definition pre_order :: "iterators \<Rightarrow> addr \<Rightarrow> nat \<times> iterators" where
  "pre_order its self = (length its, its @ [Cursor None [[self]]])"

fun pop_next :: "addr list list \<Rightarrow> addr option \<times> addr list list" where
  "pop_next [] = (None, [])"
| "pop_next ([] # fs) = pop_next fs"
| "pop_next ((k # ks) # fs) = (Some k, ks # fs)"

definition cursor_next :: "heap \<Rightarrow> cursor \<Rightarrow> (addr option \<times> cursor) option" where
  "cursor_next hp cur =
     (case cur of
        Cursor pending st \<Rightarrow>
          (case (case pending of
                   None \<Rightarrow> Some st
                 | Some k \<Rightarrow> map_option (\<lambda>ks. ks # st) (children hp k)) of
             None \<Rightarrow> None
           | Some st1 \<Rightarrow>
               (case pop_next st1 of
                  (None, st2) \<Rightarrow> Some (None, Cursor None st2)
                | (Some k, st2) \<Rightarrow> Some (Some k, Cursor (Some k) st2))))"

text \<open>
  \<^verbatim>\<open>next(it)\<close> on the iterator at index \<open>i\<close>: the node, or \<^const>\<open>None\<close> for
  \<^verbatim>\<open>StopIteration\<close>; the outer \<^const>\<open>None\<close> is an address outside the stores.
\<close>

definition iter_next :: "heap \<Rightarrow> iterators \<Rightarrow> nat \<Rightarrow> (addr option \<times> iterators) option" where
  "iter_next hp its i =
     (if i < length its
      then (case cursor_next hp (its ! i) of
              None \<Rightarrow> None
            | Some (r, cur) \<Rightarrow> Some (r, its[i := cur]))
      else None)"

text \<open>
  Reading an iterator to its end, as \<^verbatim>\<open>list(it)\<close> or a \<^verbatim>\<open>for\<close> loop does. The first
  argument bounds the number of calls of \<^verbatim>\<open>next\<close>; \<^const>\<open>None\<close> says that the iterator
  had not ended by then.
\<close>

fun drain :: "nat \<Rightarrow> heap \<Rightarrow> iterators \<Rightarrow> nat \<Rightarrow> (addr list \<times> iterators) option" where
  "drain 0 hp its i = None"
| "drain (Suc m) hp its i =
     (case iter_next hp its i of
        None \<Rightarrow> None
      | Some (None, its1) \<Rightarrow> Some ([], its1)
      | Some (Some k, its1) \<Rightarrow>
          (case drain m hp its1 i of
             None \<Rightarrow> None
           | Some (ks, its2) \<Rightarrow> Some (k # ks, its2)))"

subsection \<open>\<^verbatim>\<open>anytree\<close> without its assertions\<close>

text \<open>
  The \<^verbatim>\<open>assert\<close> statements of \<^verbatim>\<open>__detach\<close> and \<^verbatim>\<open>__attach\<close> are unconditional in the
  releases of \<^verbatim>\<open>anytree\<close> of the time of the repository (2.4.3 to 2.7.3), which
  \<^const>\<open>detach\<close>, \<^const>\<open>attach\<close> and \<^const>\<open>set_parent\<close> follow. Since release 2.9.2 the
  library evaluates them only when it is asked to (\<^verbatim>\<open>ANYTREE_ASSERTIONS=1\<close>), and
  \<^verbatim>\<open>__detach\<close> no longer removes the node from the list of the parent: it stores in the
  parent a new list, \<^verbatim>\<open>[child for child in parentchildren if child is not self]\<close>. The
  next three definitions follow these releases as they are installed, with the
  assertions off.
\<close>

definition detach_unchecked :: "heap \<Rightarrow> addr \<Rightarrow> addr option \<Rightarrow> unit result" where
  "detach_unchecked hp a par =
     (case par of
        None \<Rightarrow> (Inr (), hp)
      | Some p \<Rightarrow>
          (case children_list hp p of
             None \<Rightarrow> (Inl BadReference, hp)
           | Some (l, hp1) \<Rightarrow>
               (case (list_at hp1 l, node_at hp1 p) of
                  (Some pc, Some pd) \<Rightarrow>
                    if a < length (nodes hp1)
                    then (let ns = (nodes hp1)[p := pd\<lparr>nchildren := Some (length (lists hp1))\<rparr>]
                          in (Inr (), \<lparr>nodes = ns[a := (ns ! a)\<lparr>nparent := None\<rparr>],
                                       lists = lists hp1 @ [filter (\<lambda>k. k \<noteq> a) pc]\<rparr>))
                    else (Inl BadReference, hp1)
                | _ \<Rightarrow> (Inl BadReference, hp1))))"

definition attach_unchecked :: "heap \<Rightarrow> addr \<Rightarrow> addr option \<Rightarrow> unit result" where
  "attach_unchecked hp a par =
     (case par of
        None \<Rightarrow> (Inr (), hp)
      | Some p \<Rightarrow>
          (case children_list hp p of
             None \<Rightarrow> (Inl BadReference, hp)
           | Some (l, hp1) \<Rightarrow>
               (case (list_at hp1 l, node_at hp1 a) of
                  (Some pc, Some nd) \<Rightarrow>
                    (Inr (), hp1\<lparr>nodes := (nodes hp1)[a := nd\<lparr>nparent := Some p\<rparr>],
                                 lists := (lists hp1)[l := pc @ [a]]\<rparr>)
                | _ \<Rightarrow> (Inl BadReference, hp1))))"

definition set_parent_unchecked :: "heap \<Rightarrow> addr \<Rightarrow> addr option \<Rightarrow> unit result" where
  "set_parent_unchecked hp a v =
     (case node_at hp a of
        None \<Rightarrow> (Inl BadReference, hp)
      | Some nd \<Rightarrow>
          if nparent nd = v then (Inr (), hp)
          else (case check_loop hp a v of
                  Some e \<Rightarrow> (Inl e, hp)
                | None \<Rightarrow>
                    (case detach_unchecked hp a (nparent nd) of
                       (Inl e, hp1) \<Rightarrow> (Inl e, hp1)
                     | (Inr u, hp1) \<Rightarrow> attach_unchecked hp1 a v)))"

text \<open>
  The constructor and the operators of \<^verbatim>\<open>symbol.py\<close> once more, now over the setter
  \<open>sp\<close> of \<^verbatim>\<open>parent\<close> of the library that is installed: the bodies are those of
  \<^const>\<open>attach_children\<close>, \<^const>\<open>Symbol_init\<close>, \<^const>\<open>BinaryOperator_new\<close> (modelled from
  the spec), \<^const>\<open>binary_operator\<close>, \<^const>\<open>Symbol_add\<close>, \<^const>\<open>Symbol_sub\<close>,
  \<^const>\<open>Symbol_mul\<close> and \<^const>\<open>Symbol_truediv\<close>, which are their instances for
  \<^const>\<open>set_parent\<close>.
\<close>

type_synonym setter = "heap \<Rightarrow> addr \<Rightarrow> addr option \<Rightarrow> unit result"

fun attach_children_with :: "setter \<Rightarrow> heap \<Rightarrow> addr \<Rightarrow> addr list \<Rightarrow> unit result" where
  "attach_children_with sp hp self [] = (Inr (), hp)"
| "attach_children_with sp hp self (child # rest) =
     (case copy_copy hp child of
        (Inl e, hp1) \<Rightarrow> (Inl e, hp1)
      | (Inr c, hp1) \<Rightarrow>
          (case sp hp1 c (Some self) of
             (Inl e, hp2) \<Rightarrow> (Inl e, hp2)
           | (Inr u, hp2) \<Rightarrow> attach_children_with sp hp2 self rest))"

definition Symbol_init_with :: "setter \<Rightarrow> heap \<Rightarrow> cls \<Rightarrow> string \<Rightarrow> lref \<Rightarrow> addr result" where
  "Symbol_init_with sp hp c name l =
     (let self = length (nodes hp);
          hp0 = hp\<lparr>nodes := nodes hp @
                  [\<lparr>ncls = c, nname = name, nparent = None, nchildren = None\<rparr>]\<rparr>
      in case list_at hp0 l of
           None \<Rightarrow> (Inl BadReference, hp0)
         | Some cs \<Rightarrow>
             (case attach_children_with sp hp0 self cs of
                (Inl e, hp1) \<Rightarrow> (Inl e, hp1)
              | (Inr u, hp1) \<Rightarrow> (Inr self, hp1)))"

text \<open>
  Modelled from the spec: the constructors \<^verbatim>\<open>pybamm.Addition\<close>,
  \<^verbatim>\<open>pybamm.Subtraction\<close>, \<^verbatim>\<open>pybamm.Multiplication\<close> and \<^verbatim>\<open>pybamm.Division\<close>, whose
  module is not among the source files, as in \<^const>\<open>BinaryOperator_new\<close>: the call builds
  the list \<^verbatim>\<open>[left, right]\<close> and runs \<^verbatim>\<open>Symbol.__init__\<close> on it.
\<close>

definition BinaryOperator_new_with ::
  "setter \<Rightarrow> heap \<Rightarrow> operator \<Rightarrow> addr \<Rightarrow> addr \<Rightarrow> addr result" where
  "BinaryOperator_new_with sp hp op left right =
     Symbol_init_with sp (hp\<lparr>lists := lists hp @ [[left, right]]\<rparr>)
       (BinaryOperator op) (operator_name op) (length (lists hp))"

definition binary_operator_with ::
  "setter \<Rightarrow> operator \<Rightarrow> heap \<Rightarrow> addr \<Rightarrow> pyvalue \<Rightarrow> addr result" where
  "binary_operator_with sp op hp self other =
     (case other of
        Ref b \<Rightarrow> BinaryOperator_new_with sp hp op self b
      | _ \<Rightarrow> (Inl (NotImplementedError []), hp))"

definition Symbol_add_with :: "setter \<Rightarrow> heap \<Rightarrow> addr \<Rightarrow> pyvalue \<Rightarrow> addr result" where
  "Symbol_add_with sp hp self other =
     (if isinstance_Symbol other then binary_operator_with sp Addition hp self other
      else (Inl (NotImplementedError []), hp))"

definition Symbol_sub_with :: "setter \<Rightarrow> heap \<Rightarrow> addr \<Rightarrow> pyvalue \<Rightarrow> addr result" where
  "Symbol_sub_with sp hp self other =
     (if isinstance_Symbol other then binary_operator_with sp Subtraction hp self other
      else (Inl (NotImplementedError []), hp))"

definition Symbol_mul_with :: "setter \<Rightarrow> heap \<Rightarrow> addr \<Rightarrow> pyvalue \<Rightarrow> addr result" where
  "Symbol_mul_with sp hp self other =
     (if isinstance_Symbol other then binary_operator_with sp Multiplication hp self other
      else (Inl (NotImplementedError []), hp))"

definition Symbol_truediv_with :: "setter \<Rightarrow> heap \<Rightarrow> addr \<Rightarrow> pyvalue \<Rightarrow> addr result" where
  "Symbol_truediv_with sp hp self other =
     (if isinstance_Symbol other then binary_operator_with sp Division hp self other
      else (Inl (NotImplementedError []), hp))"

section \<open>The submesh constructor of \<^verbatim>\<open>chebyshev_scikit_fem_submesh.py\<close>\<close>

text \<open>
  \<^verbatim>\<open>ScikitChebyshev2DSubMesh.__init__(lims, npts, tabs)\<close> reads the name, the coordinate
  system and the id of the spatial variables, which are the keys of \<^verbatim>\<open>lims\<close>. The
  dictionary \<^verbatim>\<open>lims\<close> is the list of its items in insertion order; \<^verbatim>\<open>npts\<close> maps ids to
  numbers of points. An exception is its class together with the values formatted into
  its message; \<^verbatim>\<open>KeyError\<close> is what a dictionary raises for a key it does not hold.
\<close>

record spatial_variable =
  sv_name :: string
  sv_coord_sys :: string
  sv_id :: int

datatype mesh_error =
    GeometryError nat
  | DomainError "string list"
  | KeyError

text \<open>
  The loop over the spatial variables. The Chebyshev nodes are floating-point numbers
  computed with \<^verbatim>\<open>numpy\<close>; the parameter \<open>cheb a b N\<close> stands for the array \<^verbatim>\<open>x_cheb\<close> of
  the \<open>N\<close> nodes in \<open>(a, b)\<close>, and \<^verbatim>\<open>np.flip\<close> reverses it.
\<close>

fun compute_edges ::
  "('r \<Rightarrow> 'r \<Rightarrow> int \<Rightarrow> 'r list) \<Rightarrow> (spatial_variable \<times> (string \<rightharpoonup> 'r)) list \<Rightarrow> (int \<rightharpoonup> int)
     \<Rightarrow> spatial_variable list \<Rightarrow> (string \<rightharpoonup> 'r list) \<Rightarrow> mesh_error + (string \<rightharpoonup> 'r list)" where
  "compute_edges cheb lims npts [] edges = Inr edges"
| "compute_edges cheb lims npts (var # rest) edges =
     (if sv_name var \<notin> set [''y'', ''z''] then Inl (DomainError [sv_name var])
      else
        (case npts (sv_id var) of
           None \<Rightarrow> Inl KeyError
         | Some n \<Rightarrow>
             (case map_of lims var of
                None \<Rightarrow> Inl KeyError
              | Some lim \<Rightarrow>
                  (case lim ''min'' of
                     None \<Rightarrow> Inl KeyError
                   | Some a \<Rightarrow>
                       (case lim ''max'' of
                          None \<Rightarrow> Inl KeyError
                        | Some b \<Rightarrow>
                            compute_edges cheb lims npts rest
                              (edges(sv_name var \<mapsto> a # rev (cheb a b (n - 2)) @ [b])))))))"

text \<open>
  The constructor. The constructor of the base class \<^verbatim>\<open>ScikitSubMesh2D\<close> is not among
  the source files; it is the parameter \<open>base_init\<close>, which builds the submesh object
  from the edges or fails.
\<close>

definition ScikitChebyshev2DSubMesh_init ::
  "('r \<Rightarrow> 'r \<Rightarrow> int \<Rightarrow> 'r list) \<Rightarrow> ((string \<rightharpoonup> 'r list) \<Rightarrow> string \<Rightarrow> 't \<Rightarrow> mesh_error + 'm)
     \<Rightarrow> (spatial_variable \<times> (string \<rightharpoonup> 'r)) list \<Rightarrow> (int \<rightharpoonup> int) \<Rightarrow> 't \<Rightarrow> mesh_error + 'm" where
  "ScikitChebyshev2DSubMesh_init cheb base_init lims npts tabs =
     (if length lims \<noteq> 2 then Inl (GeometryError (length lims))
      else
        (let spatial_vars = map fst lims in
         if sv_coord_sys (spatial_vars ! 0) = sv_coord_sys (spatial_vars ! 1)
         then (case compute_edges cheb lims npts spatial_vars Map.empty of
                 Inl e \<Rightarrow> Inl e
               | Inr edges \<Rightarrow> base_init edges (sv_coord_sys (spatial_vars ! 0)) tabs)
         else Inl (DomainError [sv_coord_sys (spatial_vars ! 0), sv_coord_sys (spatial_vars ! 1)])))"

section \<open>Notions used in the proofs\<close>

text \<open>
  The definitions of this section are not part of the program. They state which stores
  the operations are run on, describe the stores the operations return, and say what it
  means for two trees to be structurally identical.
\<close>

text \<open>
  Well-formed stores. Every address in a list is the address of an object. The children
  list of a node exists, and the children lists of its elements are older than it: this
  makes the children relation well-founded. A node with a parent names an object that
  has a children list. The first store is well-formed and every valid call keeps a store
  well-formed (\<open>wf_initial\<close>, \<open>run_calls_spec\<close>).
\<close>

definition wf_heap :: "heap \<Rightarrow> bool" where
  "wf_heap hp \<longleftrightarrow>
     (\<forall>l<length (lists hp). \<forall>k\<in>set (lists hp ! l). k < length (nodes hp))
   \<and> (\<forall>a<length (nodes hp). \<forall>l. nchildren (nodes hp ! a) = Some l \<longrightarrow>
        l < length (lists hp)
        \<and> (\<forall>k\<in>set (lists hp ! l). \<forall>l'. nchildren (nodes hp ! k) = Some l' \<longrightarrow> l' < l))
   \<and> (\<forall>a<length (nodes hp). \<forall>p. nparent (nodes hp ! a) = Some p \<longrightarrow>
        p < length (nodes hp) \<and> nchildren (nodes hp ! p) \<noteq> None)"

text \<open>
  The invariant of the loop of \<^verbatim>\<open>Symbol.__init__\<close> for the node \<open>N\<close> under construction:
  \<open>N\<close> has no parent and is in no list, and the children list of every other node is
  older than \<open>l0\<close>, the number of lists when the loop began, while that of \<open>N\<close> is not.
\<close>

definition building :: "nat \<Rightarrow> heap \<Rightarrow> addr \<Rightarrow> bool" where
  "building l0 hp N \<longleftrightarrow>
     wf_heap hp \<and> N < length (nodes hp) \<and> nparent (nodes hp ! N) = None
   \<and> (\<forall>l<length (lists hp). N \<notin> set (lists hp ! l))
   \<and> l0 \<le> length (lists hp)
   \<and> (\<forall>a<length (nodes hp). a \<noteq> N \<longrightarrow> (\<forall>l'. nchildren (nodes hp ! a) = Some l' \<longrightarrow> l' < l0))
   \<and> (\<forall>l. nchildren (nodes hp ! N) = Some l \<longrightarrow> l0 \<le> l)"

text \<open>
  The store after one round of the loop that attaches a copy of \<open>x\<close> to \<open>N\<close>: the copy is
  the newest object, and it is appended to the list of \<open>N\<close>, which is created if \<open>N\<close> had
  none.
\<close>

definition attached :: "heap \<Rightarrow> addr \<Rightarrow> addr \<Rightarrow> heap" where
  "attached hp N x =
     (case nchildren (nodes hp ! N) of
        None \<Rightarrow>
          \<lparr>nodes = (nodes hp)[N := (nodes hp ! N)\<lparr>nchildren := Some (length (lists hp))\<rparr>]
                     @ [(nodes hp ! x)\<lparr>nparent := Some N\<rparr>],
           lists = lists hp @ [[length (nodes hp)]]\<rparr>
      | Some l \<Rightarrow>
          \<lparr>nodes = nodes hp @ [(nodes hp ! x)\<lparr>nparent := Some N\<rparr>],
           lists = (lists hp)[l := lists hp ! l @ [length (nodes hp)]]\<rparr>)"

text \<open>The address of the children list of \<open>N\<close> after a child was attached.\<close>

definition own_list :: "heap \<Rightarrow> addr \<Rightarrow> lref" where
  "own_list hp N = (case nchildren (nodes hp ! N) of None \<Rightarrow> length (lists hp) | Some l \<Rightarrow> l)"

text \<open>The store after the whole loop, when every round succeeds.\<close>

definition attached_all :: "heap \<Rightarrow> addr \<Rightarrow> addr list \<Rightarrow> heap" where
  "attached_all hp N cs = foldl (\<lambda>h x. attached h N x) hp cs"

text \<open>
  The store that a successful constructor call \<^verbatim>\<open>C(name, children)\<close> returns, written
  out: the new node, then one copy for each element of the list \<open>cs\<close>, and one new
  list, the children of the new node.
\<close>

definition built :: "heap \<Rightarrow> cls \<Rightarrow> string \<Rightarrow> addr list \<Rightarrow> heap" where
  "built hp c name cs =
     \<lparr>nodes = nodes hp @
        \<lparr>ncls = c, nname = name, nparent = None,
         nchildren = (if cs = [] then None else Some (length (lists hp)))\<rparr>
        # map (\<lambda>x. (nodes hp ! x)\<lparr>nparent := Some (length (nodes hp))\<rparr>) cs,
      lists = lists hp @
        (if cs = [] then []
         else [[Suc (length (nodes hp)) ..< Suc (length (nodes hp)) + length cs]])\<rparr>"

text \<open>The store that a successful operator call on \<open>a\<close> and \<open>b\<close> returns.\<close>

definition combined :: "heap \<Rightarrow> operator \<Rightarrow> addr \<Rightarrow> addr \<Rightarrow> heap" where
  "combined hp op a b =
     \<lparr>nodes = nodes hp @
        [\<lparr>ncls = BinaryOperator op, nname = operator_name op, nparent = None,
          nchildren = Some (Suc (length (lists hp)))\<rparr>,
         (nodes hp ! a)\<lparr>nparent := Some (length (nodes hp))\<rparr>,
         (nodes hp ! b)\<lparr>nparent := Some (length (nodes hp))\<rparr>],
      lists = lists hp @ [[a, b], [Suc (length (nodes hp)), Suc (Suc (length (nodes hp)))]]\<rparr>"

text \<open>
  The shape of a tree, as the specification describes structurally identical trees: the
  class and the name of the node and the shapes of its children, in order. The hash of
  a shape is the id as the specification gives it.
\<close>

datatype shape = Shape cls string "shape list"

fun shape_of :: "nat \<Rightarrow> heap \<Rightarrow> addr \<Rightarrow> shape option" where
  "shape_of 0 hp a = None"
| "shape_of (Suc n) hp a =
     (case node_at hp a of
        None \<Rightarrow> None
      | Some nd \<Rightarrow>
          (case children hp a of
             None \<Rightarrow> None
           | Some ks \<Rightarrow>
               (case those (map (shape_of n hp) ks) of
                  None \<Rightarrow> None
                | Some ts \<Rightarrow> Some (Shape (ncls nd) (nname nd) ts))))"

fun fingerprint :: "(hashable list \<Rightarrow> int) \<Rightarrow> shape \<Rightarrow> int" where
  "fingerprint H (Shape c name ts) = H (HClass c # HStr name # map (\<lambda>t. HInt (fingerprint H t)) ts)"

text \<open>A measure for the recursion over children in a well-formed store.\<close>

definition rank :: "heap \<Rightarrow> addr \<Rightarrow> nat" where
  "rank hp a = (case nchildren (nodes hp ! a) of None \<Rightarrow> 0 | Some l \<Rightarrow> Suc l)"

text \<open>The store \<open>hp'\<close> holds every object and every list of \<open>hp\<close>, unchanged.\<close>

definition extends :: "heap \<Rightarrow> heap \<Rightarrow> bool" where
  "extends hp hp' \<longleftrightarrow>
     take (length (nodes hp)) (nodes hp') = nodes hp
   \<and> take (length (lists hp)) (lists hp') = lists hp"

text \<open>
  Shape and id with a depth bound that is enough in every well-formed store: the number
  of lists bounds the depth of a tree.
\<close>

definition node_shape :: "heap \<Rightarrow> addr \<Rightarrow> shape option" where
  "node_shape hp a = shape_of (Suc (length (lists hp))) hp a"

definition node_id :: "(hashable list \<Rightarrow> int) \<Rightarrow> heap \<Rightarrow> addr \<Rightarrow> int option" where
  "node_id H hp a = Symbol_id H (Suc (length (lists hp))) hp a"

text \<open>
  The stores after \<^verbatim>\<open>a = Symbol("a")\<close>, \<^verbatim>\<open>b = Symbol("b")\<close>, \<^verbatim>\<open>c = Symbol("c")\<close>,
  \<^verbatim>\<open>s = a + b\<close> and \<^verbatim>\<open>m = s * c\<close>, run from the first store. The objects are
  \<open>a = 0\<close>, \<open>b = 1\<close>, \<open>c = 2\<close>, \<open>s = 3\<close> with the children \<open>4\<close> and \<open>5\<close>, and \<open>m = 6\<close> with
  the children \<open>7\<close> and \<open>8\<close>.
\<close>

definition heap_a :: heap where
  "heap_a = snd (Symbol_new initial_heap ''a'')"

definition heap_ab :: heap where
  "heap_ab = snd (Symbol_new heap_a ''b'')"

definition heap_abc :: heap where
  "heap_abc = snd (Symbol_new heap_ab ''c'')"

definition heap_sum :: heap where
  "heap_sum = snd (Symbol_add heap_abc 0 (Ref 1))"

definition heap_product :: heap where
  "heap_product = snd (Symbol_mul heap_sum 3 (Ref 2))"

text \<open>
  The order that the specification describes: a node, then the subtrees of its children
  from left to right. The first argument bounds the depth.
\<close>

fun preorder_list :: "nat \<Rightarrow> heap \<Rightarrow> addr \<Rightarrow> addr list option" where
  "preorder_list 0 hp a = None"
| "preorder_list (Suc n) hp a =
     (case children hp a of
        None \<Rightarrow> None
      | Some ks \<Rightarrow> map_option (\<lambda>xss. a # concat xss) (those (map (preorder_list n hp) ks)))"

text \<open>Reading one iterator to its end, without the store of iterators around it.\<close>

fun run_cursor :: "nat \<Rightarrow> heap \<Rightarrow> cursor \<Rightarrow> (addr list \<times> cursor) option" where
  "run_cursor 0 hp cur = None"
| "run_cursor (Suc m) hp cur =
     (case cursor_next hp cur of
        None \<Rightarrow> None
      | Some (None, c) \<Rightarrow> Some ([], c)
      | Some (Some k, c) \<Rightarrow>
          (case run_cursor m hp c of
             None \<Rightarrow> None
           | Some (ks, c') \<Rightarrow> Some (k # ks, c')))"

text \<open>The nodes an iterator still has to visit, before it reads any further children.\<close>

definition pending :: "heap \<Rightarrow> cursor \<Rightarrow> addr list option" where
  "pending hp cur =
     (case cur of
        Cursor None st \<Rightarrow> Some (concat st)
      | Cursor (Some k) st \<Rightarrow> map_option (\<lambda>ks. ks @ concat st) (children hp k))"

text \<open>
  What client code does to the store: it builds a list of objects it holds, or it calls
  a constructor that runs \<^verbatim>\<open>Symbol.__init__\<close> on a list object. A call is valid when
  the objects and the list it names exist. The operators are such calls: they build
  \<^verbatim>\<open>[left, right]\<close> and construct a node from it.
\<close>

datatype call = MakeList "addr list" | Construct cls string lref

fun run_call :: "heap \<Rightarrow> call \<Rightarrow> heap" where
  "run_call hp (MakeList xs) = hp\<lparr>lists := lists hp @ [xs]\<rparr>"
| "run_call hp (Construct c name l) = snd (Symbol_init hp c name l)"

fun call_valid :: "heap \<Rightarrow> call \<Rightarrow> bool" where
  "call_valid hp (MakeList xs) = list_all (\<lambda>x. x < length (nodes hp)) xs"
| "call_valid hp (Construct c name l) = (l < length (lists hp))"

fun run_calls :: "heap \<Rightarrow> call list \<Rightarrow> heap" where
  "run_calls hp [] = hp"
| "run_calls hp (c # cs) = run_calls (run_call hp c) cs"

fun calls_valid :: "heap \<Rightarrow> call list \<Rightarrow> bool" where
  "calls_valid hp [] = True"
| "calls_valid hp (c # cs) = (call_valid hp c \<and> calls_valid (run_call hp c) cs)"

text \<open>Two leaves, the list of both, and a node constructed from that list.\<close>

definition example_calls :: "call list" where
  "example_calls =
     [Construct Symbol ''a'' default_children, Construct Symbol ''b'' default_children,
      MakeList [0, 1], Construct (BinaryOperator Addition) ''+'' 1]"

text \<open>Spatial variables and limits for the examples.\<close>

definition var_y :: spatial_variable where
  "var_y = \<lparr>sv_name = ''y'', sv_coord_sys = ''cartesian'', sv_id = 1\<rparr>"

definition var_z :: spatial_variable where
  "var_z = \<lparr>sv_name = ''z'', sv_coord_sys = ''cartesian'', sv_id = 2\<rparr>"

definition var_x :: spatial_variable where
  "var_x = \<lparr>sv_name = ''x'', sv_coord_sys = ''cartesian'', sv_id = 3\<rparr>"

definition var_r :: spatial_variable where
  "var_r = \<lparr>sv_name = ''z'', sv_coord_sys = ''polar'', sv_id = 4\<rparr>"

definition unit_interval :: "string \<rightharpoonup> int" where
  "unit_interval = [''min'' \<mapsto> 0, ''max'' \<mapsto> 1]"

text \<open>A hash that adds up its entries, and the stores of \<^verbatim>\<open>a + bb\<close> and \<^verbatim>\<open>bb + a\<close>.\<close>

fun entry_sum :: "hashable \<Rightarrow> int" where
  "entry_sum (HClass c) = 0"
| "entry_sum (HStr s) = int (length s)"
| "entry_sum (HInt i) = i"

definition heap_a_bb :: heap where
  "heap_a_bb = snd (Symbol_new (snd (Symbol_new initial_heap ''a'')) ''bb'')"

definition heap_both_sums :: heap where
  "heap_both_sums = snd (Symbol_add (snd (Symbol_add heap_a_bb 0 (Ref 1))) 1 (Ref 0))"

subsection \<open>Stores with valid references\<close>

text \<open>
  Every reference of an object names something in the store: a parent is an object and
  a children list is a list. Python has no other references, and nothing more is asked
  of a store here; a well-formed store is such a store (\<open>wf_refs_valid\<close>).
\<close>

definition refs_valid :: "heap \<Rightarrow> bool" where
  "refs_valid hp =
     list_all (\<lambda>nd. (case nparent nd of None \<Rightarrow> True | Some p \<Rightarrow> p < length (nodes hp))
                   \<and> (case nchildren nd of None \<Rightarrow> True | Some l \<Rightarrow> l < length (lists hp)))
       (nodes hp)"

text \<open>
  The invariant of the loop of \<^verbatim>\<open>Symbol.__init__\<close> for the node \<open>N\<close> under construction,
  over the library without assertions: \<open>N\<close> has no parent, and no object older than \<open>N\<close>
  has a parent that is not older than \<open>N\<close>.
\<close>

definition constructing :: "heap \<Rightarrow> addr \<Rightarrow> bool" where
  "constructing hp N \<longleftrightarrow>
     refs_valid hp \<and> N < length (nodes hp) \<and> nparent (nodes hp ! N) = None
   \<and> (\<forall>a<N. \<forall>p. nparent (nodes hp ! a) = Some p \<longrightarrow> p < N)"

section \<open>Properties\<close>

subsection \<open>One round of the loop of the constructor\<close>

lemma path_root: "N < length (nodes hp) \<Longrightarrow> nparent (nodes hp ! N) = None \<Longrightarrow> path (length (nodes hp)) hp N = Some [N]"
  by (cases "length (nodes hp)") (auto simp: node_at_def)

lemma node_at_app [simp]: "node_at (hp\<lparr>nodes := nodes hp @ [nd]\<rparr>) a =
   (if a < length (nodes hp) then Some (nodes hp ! a) else if a = length (nodes hp) then Some nd else None)"
  by (auto simp: node_at_def nth_append)

lemma attach_fresh_first:
  assumes N: "N < length (nodes hp)" "nchildren (nodes hp ! N) = None"
  shows "attach (hp\<lparr>nodes := nodes hp @ [nd]\<rparr>) (length (nodes hp)) (Some N) = (Inr (),
     \<lparr>nodes = (nodes hp)[N := (nodes hp ! N)\<lparr>nchildren := Some (length (lists hp))\<rparr>]
                     @ [nd\<lparr>nparent := Some N\<rparr>],
      lists = lists hp @ [[length (nodes hp)]]\<rparr>)"
  using N apply (simp add: attach_def children_list_def list_at_def)
  apply (simp add: node_at_def nth_append list_update_append)
  done

lemma check_loop_root:
  assumes "N < length (nodes hp)" "nparent (nodes hp ! N) = None" "c \<noteq> N"
  shows "check_loop hp c (Some N) = None"
  using assms path_root[OF assms(1,2)] by (simp add: check_loop_def)

lemma detach_None [simp]: "detach hp a None = (Inr (), hp)"
  by (simp add: detach_def)

lemma set_parent_fresh:
  assumes a: "nparent nd = None" and N: "N < length (nodes hp)" "nparent (nodes hp ! N) = None"
  shows "set_parent (hp\<lparr>nodes := nodes hp @ [nd]\<rparr>) (length (nodes hp)) (Some N) =
           attach (hp\<lparr>nodes := nodes hp @ [nd]\<rparr>) (length (nodes hp)) (Some N)"
proof -
  let ?h = "hp\<lparr>nodes := nodes hp @ [nd]\<rparr>"
  have "check_loop ?h (length (nodes hp)) (Some N) = None"
    by (rule check_loop_root) (use N in \<open>simp_all add: nth_append\<close>)
  then show ?thesis using a by (simp add: set_parent_def)
qed

lemma attach_fresh_more:
  assumes N: "N < length (nodes hp)" "nchildren (nodes hp ! N) = Some l"
    "l < length (lists hp)" "length (nodes hp) \<notin> set (lists hp ! l)"
  shows "attach (hp\<lparr>nodes := nodes hp @ [nd]\<rparr>) (length (nodes hp)) (Some N) = (Inr (),
     \<lparr>nodes = nodes hp @ [nd\<lparr>nparent := Some N\<rparr>],
      lists = (lists hp)[l := lists hp ! l @ [length (nodes hp)]]\<rparr>)"
  using N by (simp add: attach_def children_list_def list_at_def)

lemma wf_heapD:
  assumes "wf_heap hp"
  shows "l < length (lists hp) \<Longrightarrow> k \<in> set (lists hp ! l) \<Longrightarrow> k < length (nodes hp)"
    and "a < length (nodes hp) \<Longrightarrow> nchildren (nodes hp ! a) = Some l \<Longrightarrow> l < length (lists hp)"
    and "a < length (nodes hp) \<Longrightarrow> nchildren (nodes hp ! a) = Some l \<Longrightarrow> k \<in> set (lists hp ! l)
          \<Longrightarrow> nchildren (nodes hp ! k) = Some l' \<Longrightarrow> l' < l"
    and "a < length (nodes hp) \<Longrightarrow> nparent (nodes hp ! a) = Some p \<Longrightarrow> p < length (nodes hp)"
    and "a < length (nodes hp) \<Longrightarrow> nparent (nodes hp ! a) = Some p \<Longrightarrow> nchildren (nodes hp ! p) \<noteq> None"
  using assms unfolding wf_heap_def by blast+

lemma buildingD:
  assumes "building l0 hp N"
  shows "wf_heap hp" and "N < length (nodes hp)" and "nparent (nodes hp ! N) = None"
    and "l < length (lists hp) \<Longrightarrow> N \<notin> set (lists hp ! l)"
    and "l0 \<le> length (lists hp)"
    and "a < length (nodes hp) \<Longrightarrow> a \<noteq> N \<Longrightarrow> nchildren (nodes hp ! a) = Some l' \<Longrightarrow> l' < l0"
    and "nchildren (nodes hp ! N) = Some l \<Longrightarrow> l0 \<le> l"
  using assms unfolding building_def by blast+

lemma step_ok:
  assumes b: "building l0 hp N" and x: "x < length (nodes hp)"
    and r: "nparent (nodes hp ! x) = None"
  shows "set_parent (hp\<lparr>nodes := nodes hp @ [nodes hp ! x]\<rparr>) (length (nodes hp)) (Some N)
           = (Inr (), attached hp N x)"
proof -
  note N = buildingD(2,3) [OF b] and wf = buildingD(1) [OF b]
  note sp = set_parent_fresh [OF r N]
  show ?thesis
  proof (cases "nchildren (nodes hp ! N)")
    case None
    show ?thesis
      unfolding sp attach_fresh_first [OF N(1) None] attached_def None by simp
  next
    case (Some l)
    have l: "l < length (lists hp)" by (rule wf_heapD(2) [OF wf N(1) Some])
    have nin: "length (nodes hp) \<notin> set (lists hp ! l)"
      using wf_heapD(1) [OF wf l] by blast
    show ?thesis
      unfolding sp attach_fresh_more [OF N(1) Some l nin] attached_def Some by simp
  qed
qed

lemma attached_length_nodes [simp]: "length (nodes (attached hp N x)) = Suc (length (nodes hp))"
  by (simp add: attached_def split: option.split)

lemma attached_length_lists:
  "length (lists (attached hp N x)) =
     (case nchildren (nodes hp ! N) of None \<Rightarrow> Suc (length (lists hp)) | Some l \<Rightarrow> length (lists hp))"
  by (simp add: attached_def split: option.split)

lemma attached_node_old:
  "a < length (nodes hp) \<Longrightarrow> a \<noteq> N \<Longrightarrow> nodes (attached hp N x) ! a = nodes hp ! a"
  by (simp add: attached_def nth_append split: option.split)

lemma attached_node_self:
  "N < length (nodes hp) \<Longrightarrow>
     nodes (attached hp N x) ! N = (nodes hp ! N)\<lparr>nchildren := Some (own_list hp N)\<rparr>"
  by (simp add: attached_def own_list_def nth_append split: option.split)

lemma attached_node_new:
  "nodes (attached hp N x) ! length (nodes hp) = (nodes hp ! x)\<lparr>nparent := Some N\<rparr>"
  by (simp add: attached_def nth_append split: option.split)

lemma attached_list_old:
  "l < length (lists hp) \<Longrightarrow> l \<noteq> own_list hp N \<Longrightarrow> lists (attached hp N x) ! l = lists hp ! l"
  by (auto simp: attached_def own_list_def nth_append split: option.split)

lemma attached_list_own:
  "(\<And>l. nchildren (nodes hp ! N) = Some l \<Longrightarrow> l < length (lists hp)) \<Longrightarrow>
   lists (attached hp N x) ! own_list hp N =
     (case nchildren (nodes hp ! N) of None \<Rightarrow> [] | Some l \<Rightarrow> lists hp ! l) @ [length (nodes hp)]"
  by (auto simp: attached_def own_list_def nth_append split: option.split)

lemma wf_heapI:
  assumes "\<And>l k. l < length (lists hp) \<Longrightarrow> k \<in> set (lists hp ! l) \<Longrightarrow> k < length (nodes hp)"
    and "\<And>a l. a < length (nodes hp) \<Longrightarrow> nchildren (nodes hp ! a) = Some l \<Longrightarrow> l < length (lists hp)"
    and "\<And>a l k l'. a < length (nodes hp) \<Longrightarrow> nchildren (nodes hp ! a) = Some l \<Longrightarrow>
           k \<in> set (lists hp ! l) \<Longrightarrow> nchildren (nodes hp ! k) = Some l' \<Longrightarrow> l' < l"
    and "\<And>a p. a < length (nodes hp) \<Longrightarrow> nparent (nodes hp ! a) = Some p \<Longrightarrow> p < length (nodes hp)"
    and "\<And>a p. a < length (nodes hp) \<Longrightarrow> nparent (nodes hp ! a) = Some p \<Longrightarrow>
           nchildren (nodes hp ! p) \<noteq> None"
  shows "wf_heap hp"
  unfolding wf_heap_def using assms by blast

lemma buildingI:
  assumes "wf_heap hp" and "N < length (nodes hp)" and "nparent (nodes hp ! N) = None"
    and "\<And>l. l < length (lists hp) \<Longrightarrow> N \<notin> set (lists hp ! l)"
    and "l0 \<le> length (lists hp)"
    and "\<And>a l'. a < length (nodes hp) \<Longrightarrow> a \<noteq> N \<Longrightarrow> nchildren (nodes hp ! a) = Some l' \<Longrightarrow> l' < l0"
    and "\<And>l. nchildren (nodes hp ! N) = Some l \<Longrightarrow> l0 \<le> l"
  shows "building l0 hp N"
  unfolding building_def using assms by blast

lemma building_attached:
  assumes b: "building l0 hp N" and x: "x < length (nodes hp)" "x \<noteq> N"
  shows "building l0 (attached hp N x) N"
proof -
  let ?h = "attached hp N x" and ?n = "length (nodes hp)" and ?o = "own_list hp N"
  note wf = buildingD(1) [OF b] and N = buildingD(2,3) [OF b]
  have Nl: "\<And>l. nchildren (nodes hp ! N) = Some l \<Longrightarrow> l < length (lists hp)"
    using wf_heapD(2) [OF wf N(1)] .
  have o_le: "?o \<le> length (lists hp)" and o_ge: "l0 \<le> ?o"
    using Nl buildingD(5,7) [OF b] by (auto simp: own_list_def split: option.split)
  have o_lt: "?o < length (lists ?h)"
    using Nl by (auto simp: own_list_def attached_length_lists split: option.split)
  have not_o: "\<And>l. l < length (lists ?h) \<Longrightarrow> l \<noteq> ?o \<Longrightarrow> l < length (lists hp)"
    by (auto simp: own_list_def attached_length_lists split: option.splits)
  have len_le: "length (lists hp) \<le> length (lists ?h)"
    by (auto simp: attached_length_lists split: option.split)
  have l_old: "\<And>l. l < length (lists ?h) \<Longrightarrow> l \<noteq> ?o \<Longrightarrow> lists ?h ! l = lists hp ! l"
    using not_o attached_list_old by blast
  have own: "lists ?h ! ?o =
      (case nchildren (nodes hp ! N) of None \<Rightarrow> [] | Some l \<Rightarrow> lists hp ! l) @ [?n]"
    using Nl by (rule attached_list_own)
  have own_mem: "\<And>k. k \<in> set (lists ?h ! ?o) \<Longrightarrow>
      k = ?n \<or> (nchildren (nodes hp ! N) = Some ?o \<and> ?o < length (lists hp) \<and> k \<in> set (lists hp ! ?o))"
    using Nl unfolding own by (auto simp: own_list_def split: option.splits)
  have c_old: "\<And>a. a < ?n \<Longrightarrow> a \<noteq> N \<Longrightarrow> nodes ?h ! a = nodes hp ! a"
    by (rule attached_node_old)
  have c_N: "nodes ?h ! N = (nodes hp ! N)\<lparr>nchildren := Some ?o\<rparr>"
    using N(1) by (rule attached_node_self)
  have c_new: "nodes ?h ! ?n = (nodes hp ! x)\<lparr>nparent := Some N\<rparr>"
    by (rule attached_node_new)
  have others: "l' < l0" if "a < Suc ?n" "a \<noteq> N" "nchildren (nodes ?h ! a) = Some l'" for a l'
  proof (cases "a = ?n")
    case True
    with that c_new have "nchildren (nodes hp ! x) = Some l'" by simp
    then show ?thesis using buildingD(6) [OF b x] by blast
  next
    case False
    with that have a: "a < ?n" by simp
    with that c_old have "nchildren (nodes hp ! a) = Some l'" by simp
    then show ?thesis using buildingD(6) [OF b a that(2)] by blast
  qed
  have old_k: "k < ?n \<and> k \<noteq> N" if "l < length (lists hp)" "k \<in> set (lists hp ! l)" for l k
    using wf_heapD(1) [OF wf that] buildingD(4) [OF b that(1)] that(2) by blast
  have mem: "k = ?n \<or> (k < ?n \<and> k \<noteq> N)" if "l < length (lists ?h)" "k \<in> set (lists ?h ! l)" for l k
  proof (cases "l = ?o")
    case True
    then show ?thesis using own_mem that old_k by blast
  next
    case False
    then show ?thesis using l_old that not_o old_k by metis
  qed
  have A: "k < length (nodes ?h)" if "l < length (lists ?h)" "k \<in> set (lists ?h ! l)" for l k
    using mem [OF that] by auto
  have B1: "l < length (lists ?h)" if "a < length (nodes ?h)" "nchildren (nodes ?h ! a) = Some l" for a l
  proof (cases "a = N")
    case True
    then show ?thesis using that c_N o_lt by simp
  next
    case False
    then have "l < l0" using others that by simp
    then show ?thesis using o_ge o_lt by linarith
  qed
  have B2: "l' < l" if "a < length (nodes ?h)" "nchildren (nodes ?h ! a) = Some l"
      "k \<in> set (lists ?h ! l)" "nchildren (nodes ?h ! k) = Some l'" for a l k l'
  proof -
  note T = that
  show ?thesis
  proof (cases "a = N")
    case True
    then have l: "l = ?o" using that c_N by simp
    from own_mem T(3) l consider "k = ?n"
      | "nchildren (nodes hp ! N) = Some ?o" "?o < length (lists hp)" "k \<in> set (lists hp ! ?o)"
      by blast
    then show ?thesis
    proof cases
      case 1
      then have "l' < l0" using others [of k l'] T(4) N(1) by simp
      then show ?thesis using l o_ge by linarith
    next
      case 2
      then have k: "k < ?n" "k \<noteq> N" using old_k by blast+
      then have "nchildren (nodes hp ! k) = Some l'" using T(4) c_old by simp
      then show ?thesis using wf_heapD(3) [OF wf N(1) 2(1) 2(3)] l by simp
    qed
  next
    case False
    then have ll: "l < l0" using others T by simp
    then have lo: "l \<noteq> ?o" "l < length (lists hp)" using o_ge o_le by linarith+
    have ls: "lists ?h ! l = lists hp ! l" using attached_list_old [OF lo(2,1)] .
    then have kk: "k \<in> set (lists hp ! l)" using T(3) by simp
    then have k: "k < ?n" "k \<noteq> N" using old_k lo(2) by blast+
    then have kc: "nchildren (nodes hp ! k) = Some l'" using T(4) c_old by simp
    obtain a0 where a0: "a0 < ?n" "nchildren (nodes hp ! a0) = Some l"
    proof (cases "a = ?n")
      case True
      then have "nchildren (nodes hp ! x) = Some l" using T(2) c_new by simp
      then show ?thesis using x that by blast
    next
      case F: False
      then have "a < ?n" using T(1) by simp
      moreover have "nchildren (nodes hp ! a) = Some l" using T(2) c_old \<open>a < ?n\<close> False by simp
      ultimately show ?thesis using that by blast
    qed
    show ?thesis using wf_heapD(3) [OF wf a0 kk kc] .
  qed
  qed
  have C: "p < length (nodes ?h) \<and> nchildren (nodes ?h ! p) \<noteq> None"
    if "a < length (nodes ?h)" "nparent (nodes ?h ! a) = Some p" for a p
  proof -
    note T = that
    consider "a = N" | "a = ?n" | "a < ?n" "a \<noteq> N" using T(1) by fastforce
    then show ?thesis
    proof cases
      case 1
      then show ?thesis using T(2) c_N N by simp
    next
      case 2
      then have "p = N" using T(2) c_new by simp
      then show ?thesis using N c_N by simp
    next
      case 3
      then have pa: "nparent (nodes hp ! a) = Some p" using T(2) c_old by simp
      have p: "p < ?n" "nchildren (nodes hp ! p) \<noteq> None"
        using wf_heapD(4,5) [OF wf 3(1) pa] by blast+
      show ?thesis
      proof (cases "p = N")
        case True
        then show ?thesis using N c_N by simp
      next
        case False
        then show ?thesis using p c_old by simp
      qed
    qed
  qed
  have wf': "wf_heap ?h"
    by (rule wf_heapI) (use A B1 B2 C in blast)+
  show ?thesis
  proof (rule buildingI)
    show "wf_heap ?h" by (rule wf')
    show "N < length (nodes ?h)" using N by simp
    show "nparent (nodes ?h ! N) = None" using c_N N by simp
    show "N \<notin> set (lists ?h ! l)" if "l < length (lists ?h)" for l
      using mem [OF that] N(1) by blast
    show "l0 \<le> length (lists ?h)" using buildingD(5) [OF b] len_le by linarith
    show "l' < l0" if "a < length (nodes ?h)" "a \<noteq> N" "nchildren (nodes ?h ! a) = Some l'" for a l'
      using others that by simp
    show "l0 \<le> l" if "nchildren (nodes ?h ! N) = Some l" for l
      using that c_N o_ge by simp
  qed
qed

lemma step_fail:
  assumes wf: "wf_heap hp" and x: "x < length (nodes hp)"
    and r: "nparent (nodes hp ! x) = Some p" and N: "N < length (nodes hp)" "nparent (nodes hp ! N) = None" "p \<noteq> N"
  shows "set_parent (hp\<lparr>nodes := nodes hp @ [nodes hp ! x]\<rparr>) (length (nodes hp)) (Some N)
           = (Inl (AssertionError ''Tree internal data is corrupt.''), hp\<lparr>nodes := nodes hp @ [nodes hp ! x]\<rparr>)"
proof -
  let ?h = "hp\<lparr>nodes := nodes hp @ [nodes hp ! x]\<rparr>"
  have cl: "check_loop ?h (length (nodes hp)) (Some N) = None"
    by (rule check_loop_root) (use N in \<open>simp_all add: nth_append\<close>)
  have p: "p < length (nodes hp)" using wf_heapD(4) [OF wf x r] .
  obtain l where pl: "nchildren (nodes hp ! p) = Some l"
    using wf_heapD(5) [OF wf x r] by blast
  have l: "l < length (lists hp)" using wf_heapD(2) [OF wf p pl] .
  have nin: "length (nodes hp) \<notin> set (lists hp ! l)"
    using wf_heapD(1) [OF wf l] by blast
  have "detach ?h (length (nodes hp)) (Some p) = (Inl (AssertionError ''Tree internal data is corrupt.''), ?h)"
    using p pl l nin by (simp add: detach_def children_list_def list_at_def nth_append)
  then show ?thesis using r cl N by (simp add: set_parent_def)
qed

lemma wf_copy:
  assumes wf: "wf_heap hp" and x: "x < length (nodes hp)"
  shows "wf_heap (hp\<lparr>nodes := nodes hp @ [nodes hp ! x]\<rparr>)"
proof (rule wf_heapI)
  let ?h = "hp\<lparr>nodes := nodes hp @ [nodes hp ! x]\<rparr>"
  have nd: "\<exists>b<length (nodes hp). nodes ?h ! a = nodes hp ! b" if "a < length (nodes ?h)" for a
  proof (cases "a = length (nodes hp)")
    case True
    then show ?thesis using x by (auto simp: nth_append)
  next
    case False
    then have "a < length (nodes hp)" using that by simp
    then show ?thesis by (auto simp: nth_append)
  qed
  have old: "nodes ?h ! k = nodes hp ! k" if "k < length (nodes hp)" for k
    using that by (simp add: nth_append)
  fix a l k l' p
  show "l < length (lists ?h) \<Longrightarrow> k \<in> set (lists ?h ! l) \<Longrightarrow> k < length (nodes ?h)"
    using wf_heapD(1) [OF wf, of l k] by simp
  show "a < length (nodes ?h) \<Longrightarrow> nchildren (nodes ?h ! a) = Some l \<Longrightarrow> l < length (lists ?h)"
    using nd [of a] wf_heapD(2) [OF wf] by auto
  show "a < length (nodes ?h) \<Longrightarrow> nchildren (nodes ?h ! a) = Some l \<Longrightarrow>
           k \<in> set (lists ?h ! l) \<Longrightarrow> nchildren (nodes ?h ! k) = Some l' \<Longrightarrow> l' < l"
  proof -
    assume a: "a < length (nodes ?h)" "nchildren (nodes ?h ! a) = Some l"
      "k \<in> set (lists ?h ! l)" "nchildren (nodes ?h ! k) = Some l'"
    from nd [OF a(1)] a(2) obtain b where b: "b < length (nodes hp)" "nchildren (nodes hp ! b) = Some l"
      by auto
    have l: "l < length (lists hp)" using wf_heapD(2) [OF wf b] .
    have k: "k < length (nodes hp)" using wf_heapD(1) [OF wf l] a(3) by simp
    show "l' < l" using wf_heapD(3) [OF wf b, of k l'] a(3,4) old [OF k] by simp
  qed
  show "a < length (nodes ?h) \<Longrightarrow> nparent (nodes ?h ! a) = Some p \<Longrightarrow> p < length (nodes ?h)"
    using nd [of a] wf_heapD(4) [OF wf] by (auto simp: less_Suc_eq)
  show "a < length (nodes ?h) \<Longrightarrow> nparent (nodes ?h ! a) = Some p \<Longrightarrow>
           nchildren (nodes ?h ! p) \<noteq> None"
  proof -
    assume a: "a < length (nodes ?h)" "nparent (nodes ?h ! a) = Some p"
    from nd [OF a(1)] a(2) obtain b where b: "b < length (nodes hp)" "nparent (nodes hp ! b) = Some p"
      by auto
    have "p < length (nodes hp)" using wf_heapD(4) [OF wf b] .
    then show ?thesis using wf_heapD(5) [OF wf b] old by simp
  qed
qed

lemma attached_take_nodes: "N < length (nodes hp) \<Longrightarrow> take N (nodes (attached hp N x)) = take N (nodes hp)"
  by (simp add: attached_def split: option.split)

lemma attached_take_lists:
  "l0 \<le> length (lists hp) \<Longrightarrow> (\<And>l. nchildren (nodes hp ! N) = Some l \<Longrightarrow> l0 \<le> l) \<Longrightarrow>
     take l0 (lists (attached hp N x)) = take l0 (lists hp)"
  by (auto simp: attached_def split: option.split)

lemma nth_of_take_eq: "take n xs = take n ys \<Longrightarrow> i < n \<Longrightarrow> xs ! i = ys ! i"
  by (metis nth_take)

subsection \<open>The loop and the constructor\<close>

lemma attached_all_simps [simp]:
  "attached_all hp N [] = hp"
  "attached_all hp N (x # cs) = attached_all (attached hp N x) N cs"
  by (simp_all add: attached_all_def)

lemma copy_copy_ok: "x < length (nodes hp) \<Longrightarrow>
   copy_copy hp x = (Inr (length (nodes hp)), hp\<lparr>nodes := nodes hp @ [nodes hp ! x]\<rparr>)"
  by (simp add: copy_copy_def node_at_def)

lemma attach_children_step_ok:
  assumes b: "building l0 hp N" and x: "x < length (nodes hp)" and r: "nparent (nodes hp ! x) = None"
  shows "attach_children hp N (x # rest) = attach_children (attached hp N x) N rest"
  using copy_copy_ok [OF x] step_ok [OF b x r] by simp

lemma attach_children_step_fail:
  assumes b: "building l0 hp N" and x: "x < length (nodes hp)"
    and r: "nparent (nodes hp ! x) = Some p" "p \<noteq> N"
  shows "attach_children hp N (x # rest) =
     (Inl (AssertionError ''Tree internal data is corrupt.''), hp\<lparr>nodes := nodes hp @ [nodes hp ! x]\<rparr>)"
  using copy_copy_ok [OF x] step_fail [OF buildingD(1) [OF b] x r(1) buildingD(2,3) [OF b] r(2)]
  by simp

lemma attach_children_result:
  assumes "building l0 hp N" and "\<forall>x\<in>set cs. x < N \<and> nparent (nodes hp ! x) \<noteq> Some N"
    and "attach_children hp N cs = (r, hp')"
  shows "wf_heap hp' \<and> take N (nodes hp') = take N (nodes hp)
       \<and> take l0 (lists hp') = take l0 (lists hp)
       \<and> (if \<forall>x\<in>set cs. nparent (nodes hp ! x) = None
          then r = Inr () \<and> hp' = attached_all hp N cs
          else r = Inl (AssertionError ''Tree internal data is corrupt.''))"
  using assms
proof (induction cs arbitrary: hp)
  case Nil
  then show ?case using buildingD(1) by auto
next
  case (Cons x rest)
  note b = Cons.prems(1)
  note N = buildingD(2) [OF b]
  have x: "x < N" "x < length (nodes hp)" "nparent (nodes hp ! x) \<noteq> Some N"
    using Cons.prems(2) N by auto
  show ?case
  proof (cases "nparent (nodes hp ! x)")
    case None
    let ?h = "attached hp N x"
    have b': "building l0 ?h N" using building_attached [OF b x(2)] x(1) by blast
    have old: "nodes ?h ! y = nodes hp ! y" if "y < N" for y
      using attached_node_old [of y hp N x] that N by simp
    have pre: "\<forall>y\<in>set rest. y < N \<and> nparent (nodes ?h ! y) \<noteq> Some N"
      using Cons.prems(2) old by simp
    have run: "attach_children ?h N rest = (r, hp')"
      using Cons.prems(3) attach_children_step_ok [OF b x(2) None] by simp
    note IH = Cons.IH [OF b' pre run]
    have t1: "take N (nodes ?h) = take N (nodes hp)" using N by (rule attached_take_nodes)
    have t2: "take l0 (lists ?h) = take l0 (lists hp)"
      using buildingD(5,7) [OF b] by (rule attached_take_lists)
    have eq: "(\<forall>y\<in>set rest. nparent (nodes ?h ! y) = None) \<longleftrightarrow>
              (\<forall>y\<in>set (x # rest). nparent (nodes hp ! y) = None)"
      using Cons.prems(2) old None by simp
    show ?thesis using IH t1 t2 unfolding eq by (simp split: if_splits)
  next
    case (Some p)
    then have p: "p \<noteq> N" using x by simp
    have res: "r = Inl (AssertionError ''Tree internal data is corrupt.'')"
      "hp' = hp\<lparr>nodes := nodes hp @ [nodes hp ! x]\<rparr>"
      using Cons.prems(3) attach_children_step_fail [OF b x(2) Some p] by simp_all
    have "wf_heap hp'" unfolding res using buildingD(1) [OF b] x(2) by (rule wf_copy)
    then show ?thesis using res Some N by simp
  qed
qed

lemma attached_all_more:
  assumes "N < length (nodes hp)" "nchildren (nodes hp ! N) = Some l" "l < length (lists hp)"
    and "\<forall>x\<in>set cs. x < length (nodes hp)"
  shows "attached_all hp N cs =
     \<lparr>nodes = nodes hp @ map (\<lambda>x. (nodes hp ! x)\<lparr>nparent := Some N\<rparr>) cs,
      lists = (lists hp)[l := lists hp ! l @ [length (nodes hp) ..< length (nodes hp) + length cs]]\<rparr>"
  using assms
proof (induction cs arbitrary: hp)
  case Nil
  then show ?case by simp
next
  case (Cons x rest)
  let ?h = "attached hp N x"
  have h: "?h = \<lparr>nodes = nodes hp @ [(nodes hp ! x)\<lparr>nparent := Some N\<rparr>],
                 lists = (lists hp)[l := lists hp ! l @ [length (nodes hp)]]\<rparr>"
    using Cons.prems(2) by (simp add: attached_def)
  have 1: "N < length (nodes ?h)" using Cons.prems(1) by simp
  have 2: "nchildren (nodes ?h ! N) = Some l" using Cons.prems(1,2) by (simp add: h nth_append)
  have 3: "l < length (lists ?h)" using Cons.prems(3) by (simp add: h)
  have 4: "\<forall>y\<in>set rest. y < length (nodes ?h)" using Cons.prems(4) by auto
  have m: "map (\<lambda>y. (nodes ?h ! y)\<lparr>nparent := Some N\<rparr>) rest
         = map (\<lambda>y. (nodes hp ! y)\<lparr>nparent := Some N\<rparr>) rest"
    using Cons.prems(4) by (simp add: h nth_append)
  have u: "[length (nodes hp)] @ [Suc (length (nodes hp)) ..< Suc (length (nodes hp)) + length rest]
         = [length (nodes hp) ..< length (nodes hp) + length (x # rest)]"
    by (subst (2) upt_rec) simp
  show ?case
    unfolding attached_all_simps Cons.IH [OF 1 2 3 4] m
    using Cons.prems(3) u by (simp add: h)
qed

lemma building_new:
  assumes wf: "wf_heap hp"
  shows "building (length (lists hp))
           (hp\<lparr>nodes := nodes hp @ [\<lparr>ncls = c, nname = name, nparent = None, nchildren = None\<rparr>]\<rparr>)
           (length (nodes hp))"
proof -
  let ?nd = "\<lparr>ncls = c, nname = name, nparent = None, nchildren = None\<rparr>"
  let ?h = "hp\<lparr>nodes := nodes hp @ [?nd]\<rparr>" and ?n = "length (nodes hp)"
  have old: "nodes ?h ! a = nodes hp ! a" if "a < ?n" for a using that by (simp add: nth_append)
  have new: "nodes ?h ! ?n = ?nd" by simp
  have cases: "a = ?n \<or> a < ?n" if "a < length (nodes ?h)" for a using that by auto
  have ch: "a < ?n \<and> nchildren (nodes hp ! a) = Some l"
    if "a < length (nodes ?h)" "nchildren (nodes ?h ! a) = Some l" for a l
    using cases [OF that(1)] that(2) old new by auto
  have pa: "a < ?n \<and> nparent (nodes hp ! a) = Some p"
    if "a < length (nodes ?h)" "nparent (nodes ?h ! a) = Some p" for a p
    using cases [OF that(1)] that(2) old new by auto
  have wf': "wf_heap ?h"
  proof (rule wf_heapI)
    fix a l k l' p
    show "l < length (lists ?h) \<Longrightarrow> k \<in> set (lists ?h ! l) \<Longrightarrow> k < length (nodes ?h)"
      using wf_heapD(1) [OF wf, of l k] by simp
    show "a < length (nodes ?h) \<Longrightarrow> nchildren (nodes ?h ! a) = Some l \<Longrightarrow> l < length (lists ?h)"
      using ch [of a l] wf_heapD(2) [OF wf, of a l] by simp
    show "a < length (nodes ?h) \<Longrightarrow> nchildren (nodes ?h ! a) = Some l \<Longrightarrow>
           k \<in> set (lists ?h ! l) \<Longrightarrow> nchildren (nodes ?h ! k) = Some l' \<Longrightarrow> l' < l"
    proof -
      assume a: "a < length (nodes ?h)" "nchildren (nodes ?h ! a) = Some l"
        "k \<in> set (lists ?h ! l)" "nchildren (nodes ?h ! k) = Some l'"
      note a0 = ch [OF a(1,2)]
      have l: "l < length (lists hp)" using wf_heapD(2) [OF wf] a0 by blast
      have k: "k < ?n" using wf_heapD(1) [OF wf l] a(3) by simp
      show "l' < l" using wf_heapD(3) [OF wf, of a l k l'] a0 a(3,4) old [OF k] by simp
    qed
    show "a < length (nodes ?h) \<Longrightarrow> nparent (nodes ?h ! a) = Some p \<Longrightarrow> p < length (nodes ?h)"
      using pa [of a p] wf_heapD(4) [OF wf, of a p] by auto
    show "a < length (nodes ?h) \<Longrightarrow> nparent (nodes ?h ! a) = Some p \<Longrightarrow>
           nchildren (nodes ?h ! p) \<noteq> None"
    proof -
      assume a: "a < length (nodes ?h)" "nparent (nodes ?h ! a) = Some p"
      note a0 = pa [OF a]
      have "p < ?n" using wf_heapD(4) [OF wf] a0 by blast
      then show ?thesis
        using wf_heapD(5) [OF wf conjunct1 [OF a0] conjunct2 [OF a0]] old by simp
    qed
  qed
  show ?thesis
  proof (rule buildingI)
    show "wf_heap ?h" by (rule wf')
    show "?n < length (nodes ?h)" by simp
    show "nparent (nodes ?h ! ?n) = None" by simp
    show "?n \<notin> set (lists ?h ! l)" if "l < length (lists ?h)" for l
      using wf_heapD(1) [OF wf, of l ?n] that by auto
    show "length (lists hp) \<le> length (lists ?h)" by simp
    show "l' < length (lists hp)"
      if "a < length (nodes ?h)" "a \<noteq> ?n" "nchildren (nodes ?h ! a) = Some l'" for a l'
      using ch [OF that(1,3)] wf_heapD(2) [OF wf] by blast
    show "length (lists hp) \<le> l" if "nchildren (nodes ?h ! ?n) = Some l" for l
      using that by simp
  qed
qed

lemma attached_all_new:
  assumes "\<forall>x\<in>set cs. x < length (nodes hp)"
  shows "attached_all
           (hp\<lparr>nodes := nodes hp @ [\<lparr>ncls = c, nname = name, nparent = None, nchildren = None\<rparr>]\<rparr>)
           (length (nodes hp)) cs = built hp c name cs"
proof (cases cs)
  case Nil
  then show ?thesis by (simp add: built_def)
next
  case (Cons x rest)
  let ?nd = "\<lparr>ncls = c, nname = name, nparent = None, nchildren = None\<rparr>"
  let ?hz = "hp\<lparr>nodes := nodes hp @ [?nd]\<rparr>" and ?n = "length (nodes hp)"
  let ?h = "attached ?hz ?n x"
  have x: "x < ?n" and rest: "\<forall>y\<in>set rest. y < ?n" using assms Cons by auto
  have h: "?h = \<lparr>nodes = nodes hp @ [?nd\<lparr>nchildren := Some (length (lists hp))\<rparr>,
                                    (nodes hp ! x)\<lparr>nparent := Some ?n\<rparr>],
                 lists = lists hp @ [[Suc ?n]]\<rparr>"
    using x by (simp add: attached_def nth_append)
  have 1: "?n < length (nodes ?h)" by simp
  have 2: "nchildren (nodes ?h ! ?n) = Some (length (lists hp))" by (simp add: h nth_append)
  have 3: "length (lists hp) < length (lists ?h)" by (simp add: h)
  have 4: "\<forall>y\<in>set rest. y < length (nodes ?h)" using rest by auto
  have m: "map (\<lambda>y. (nodes ?h ! y)\<lparr>nparent := Some ?n\<rparr>) rest
         = map (\<lambda>y. (nodes hp ! y)\<lparr>nparent := Some ?n\<rparr>) rest"
    using rest by (simp add: h nth_append)
  have u: "[Suc ?n] @ [Suc (Suc ?n) ..< Suc (Suc ?n) + length rest]
         = [Suc ?n ..< Suc ?n + length (x # rest)]"
    by (subst (2) upt_rec) simp
  have "attached_all ?hz ?n cs = attached_all ?h ?n rest"
    unfolding Cons by (rule attached_all_simps(2))
  also have "\<dots> = built hp c name cs"
    unfolding attached_all_more [OF 1 2 3 4] m
    using u Cons by (simp add: h built_def)
  finally show ?thesis .
qed

lemma Symbol_init_spec:
  assumes wf: "wf_heap hp" and l: "l < length (lists hp)"
    and run: "Symbol_init hp c name l = (r, hp')"
  shows "wf_heap hp'"
    and "take (length (nodes hp)) (nodes hp') = nodes hp"
    and "take (length (lists hp)) (lists hp') = lists hp"
    and "if \<forall>x\<in>set (lists hp ! l). nparent (nodes hp ! x) = None
         then r = Inr (length (nodes hp)) \<and> hp' = built hp c name (lists hp ! l)
         else r = Inl (AssertionError ''Tree internal data is corrupt.'')"
proof -
  let ?nd = "\<lparr>ncls = c, nname = name, nparent = None, nchildren = None\<rparr>"
  let ?hz = "hp\<lparr>nodes := nodes hp @ [?nd]\<rparr>" and ?n = "length (nodes hp)"
  let ?cs = "lists hp ! l"
  obtain r0 h1 where ac: "attach_children ?hz ?n ?cs = (r0, h1)" by (cases "attach_children ?hz ?n ?cs")
  have res: "hp' = h1" "r = (case r0 of Inl e \<Rightarrow> Inl e | Inr u \<Rightarrow> Inr ?n)"
    using run l ac by (auto simp: Symbol_init_def Let_def list_at_def split: sum.splits)
  have cs: "\<forall>x\<in>set ?cs. x < ?n" using wf_heapD(1) [OF wf l] by blast
  have old: "nodes ?hz ! x = nodes hp ! x" if "x < ?n" for x using that by (simp add: nth_append)
  have pre: "\<forall>x\<in>set ?cs. x < ?n \<and> nparent (nodes ?hz ! x) \<noteq> Some ?n"
  proof
    fix x assume "x \<in> set ?cs"
    then have x: "x < ?n" using cs by blast
    have "nparent (nodes hp ! x) \<noteq> Some ?n" using wf_heapD(4) [OF wf x, of ?n] by auto
    then show "x < ?n \<and> nparent (nodes ?hz ! x) \<noteq> Some ?n" using x old by simp
  qed
  have eq: "(\<forall>x\<in>set ?cs. nparent (nodes ?hz ! x) = None) \<longleftrightarrow> (\<forall>x\<in>set ?cs. nparent (nodes hp ! x) = None)"
    using cs old by simp
  note R = attach_children_result [OF building_new [OF wf] pre ac]
  show "wf_heap hp'" using R res by simp
  show "take ?n (nodes hp') = nodes hp" using R res by simp
  show "take (length (lists hp)) (lists hp') = lists hp" using R res by simp
  show "if \<forall>x\<in>set ?cs. nparent (nodes hp ! x) = None
         then r = Inr ?n \<and> hp' = built hp c name ?cs
         else r = Inl (AssertionError ''Tree internal data is corrupt.'')"
    using R res attached_all_new [OF cs] unfolding eq by (simp split: if_splits)
qed

subsection \<open>The operators\<close>

lemma wf_new_list:
  assumes wf: "wf_heap hp" and xs: "\<forall>x\<in>set xs. x < length (nodes hp)"
  shows "wf_heap (hp\<lparr>lists := lists hp @ [xs]\<rparr>)"
proof (rule wf_heapI)
  let ?h = "hp\<lparr>lists := lists hp @ [xs]\<rparr>"
  fix a l k l' p
  show "l < length (lists ?h) \<Longrightarrow> k \<in> set (lists ?h ! l) \<Longrightarrow> k < length (nodes ?h)"
    using wf_heapD(1) [OF wf, of l k] xs by (auto simp: nth_append less_Suc_eq)
  show "a < length (nodes ?h) \<Longrightarrow> nchildren (nodes ?h ! a) = Some l \<Longrightarrow> l < length (lists ?h)"
    using wf_heapD(2) [OF wf, of a l] by auto
  show "a < length (nodes ?h) \<Longrightarrow> nchildren (nodes ?h ! a) = Some l \<Longrightarrow>
           k \<in> set (lists ?h ! l) \<Longrightarrow> nchildren (nodes ?h ! k) = Some l' \<Longrightarrow> l' < l"
    using wf_heapD(2) [OF wf, of a l] wf_heapD(3) [OF wf, of a l k l'] by (auto simp: nth_append)
  show "a < length (nodes ?h) \<Longrightarrow> nparent (nodes ?h ! a) = Some p \<Longrightarrow> p < length (nodes ?h)"
    using wf_heapD(4) [OF wf, of a p] by auto
  show "a < length (nodes ?h) \<Longrightarrow> nparent (nodes ?h ! a) = Some p \<Longrightarrow>
           nchildren (nodes ?h ! p) \<noteq> None"
    using wf_heapD(5) [OF wf, of a p] by auto
qed

lemma BinaryOperator_new_spec:
  assumes wf: "wf_heap hp" and a: "a < length (nodes hp)" and b: "b < length (nodes hp)"
    and run: "BinaryOperator_new hp op a b = (r, hp')"
  shows "wf_heap hp'"
    and "take (length (nodes hp)) (nodes hp') = nodes hp"
    and "take (length (lists hp)) (lists hp') = lists hp"
    and "if nparent (nodes hp ! a) = None \<and> nparent (nodes hp ! b) = None
         then r = Inr (length (nodes hp)) \<and> hp' = combined hp op a b
         else r = Inl (AssertionError ''Tree internal data is corrupt.'')"
proof -
  let ?h = "hp\<lparr>lists := lists hp @ [[a, b]]\<rparr>"
  have wf1: "wf_heap ?h" by (rule wf_new_list [OF wf]) (use a b in simp)
  have l: "length (lists hp) < length (lists ?h)" by simp
  have run1: "Symbol_init ?h (BinaryOperator op) (operator_name op) (length (lists hp)) = (r, hp')"
    using run by (simp add: BinaryOperator_new_def)
  note S = Symbol_init_spec [OF wf1 l run1]
  show "wf_heap hp'" by (rule S(1))
  show "take (length (nodes hp)) (nodes hp') = nodes hp" using S(2) by simp
  have "take (length (lists hp)) (take (length (lists ?h)) (lists hp')) = take (length (lists hp)) (lists ?h)"
    using S(3) by simp
  then show "take (length (lists hp)) (lists hp') = lists hp" by simp
  have b2: "built ?h (BinaryOperator op) (operator_name op) [a, b] = combined hp op a b"
    by (simp add: built_def combined_def)
  show "if nparent (nodes hp ! a) = None \<and> nparent (nodes hp ! b) = None
         then r = Inr (length (nodes hp)) \<and> hp' = combined hp op a b
         else r = Inl (AssertionError ''Tree internal data is corrupt.'')"
    using S(4) b2 by (simp split: if_splits)
qed

subsection \<open>Shapes and ids\<close>

lemma those_map_Some:
  "those (map f xs) = Some ys \<longleftrightarrow> length ys = length xs \<and> (\<forall>i<length xs. f (xs ! i) = Some (ys ! i))"
proof (induction xs arbitrary: ys)
  case Nil
  then show ?case by auto
next
  case (Cons x xs)
  show ?case
  proof (cases "f x")
    case None
    then show ?thesis by (auto simp: nth_Cons')
  next
    case (Some y)
    show ?thesis
    proof (cases ys)
      case Nil
      then show ?thesis using Some by (auto split: option.splits)
    next
      case (Cons y' ys')
      then show ?thesis using Some Cons.IH [of ys']
        by (auto simp: nth_Cons split: option.splits nat.splits)
    qed
  qed
qed

lemma those_map_cong_Some:
  assumes "those (map f xs) = Some ys" and "\<And>x y. x \<in> set xs \<Longrightarrow> f x = Some y \<Longrightarrow> g x = Some (h y)"
  shows "those (map g xs) = Some (map h ys)"
  using assms by (auto simp: those_map_Some)

lemma those_map_total:
  assumes "\<And>x. x \<in> set xs \<Longrightarrow> \<exists>y. f x = Some y"
  shows "\<exists>ys. those (map f xs) = Some ys"
  using assms
proof (induction xs)
  case Nil
  then show ?case by simp
next
  case (Cons x xs)
  then obtain y ys where "f x = Some y" "those (map f xs) = Some ys" by (meson list.set_intros)
  then show ?case by simp
qed

lemma id_of_shape:
  "shape_of n hp a = Some t \<Longrightarrow> Symbol_id H n hp a = Some (fingerprint H t)"
proof (induction n arbitrary: a t)
  case 0
  then show ?case by simp
next
  case (Suc n)
  from Suc.prems obtain nd ks ts where
    nd: "node_at hp a = Some nd" and ks: "children hp a = Some ks"
    and ts: "those (map (shape_of n hp) ks) = Some ts" and t: "t = Shape (ncls nd) (nname nd) ts"
    by (auto split: option.splits)
  have "those (map (Symbol_id H n hp) ks) = Some (map (fingerprint H) ts)"
    using ts by (rule those_map_cong_Some) (rule Suc.IH)
  then show ?case using nd ks t by (simp add: comp_def)
qed

lemma children_wf:
  assumes wf: "wf_heap hp" and a: "a < length (nodes hp)"
  shows "\<exists>ks. children hp a = Some ks \<and> (\<forall>k\<in>set ks. k < length (nodes hp) \<and> rank hp k < rank hp a)"
proof (cases "nchildren (nodes hp ! a)")
  case None
  then show ?thesis using a by (simp add: children_def node_at_def)
next
  case (Some l)
  have l: "l < length (lists hp)" using wf_heapD(2) [OF wf a Some] .
  have "k < length (nodes hp) \<and> rank hp k < rank hp a" if "k \<in> set (lists hp ! l)" for k
    using wf_heapD(1) [OF wf l that] wf_heapD(3) [OF wf a Some that] Some
    by (auto simp: rank_def split: option.split)
  then show ?thesis using a Some l by (simp add: children_def node_at_def list_at_def)
qed

lemma shape_of_total_aux:
  assumes wf: "wf_heap hp"
  shows "a < length (nodes hp) \<Longrightarrow> rank hp a < n \<Longrightarrow> \<exists>t. shape_of n hp a = Some t"
proof (induction n arbitrary: a)
  case 0
  then show ?case by simp
next
  case (Suc n)
  from children_wf [OF wf Suc.prems(1)] obtain ks where
    ks: "children hp a = Some ks" "\<forall>k\<in>set ks. k < length (nodes hp) \<and> rank hp k < rank hp a"
    by blast
  have "\<exists>t. shape_of n hp k = Some t" if "k \<in> set ks" for k
    using Suc.IH [of k] ks(2) that Suc.prems(2) by fastforce
  then obtain ts where "those (map (shape_of n hp) ks) = Some ts"
    using those_map_total by blast
  then show ?case using ks(1) Suc.prems(1) by (simp add: node_at_def)
qed

lemma rank_bound: "wf_heap hp \<Longrightarrow> a < length (nodes hp) \<Longrightarrow> rank hp a < Suc (length (lists hp))"
  using wf_heapD(2) [of hp a] by (auto simp: rank_def split: option.split)

lemma shape_of_total:
  assumes "wf_heap hp" "a < length (nodes hp)"
  shows "\<exists>t. shape_of (Suc (length (lists hp))) hp a = Some t"
  using shape_of_total_aux [OF assms] rank_bound [OF assms] by blast

lemma shape_of_mono:
  "shape_of n hp a = Some t \<Longrightarrow> n \<le> m \<Longrightarrow> shape_of m hp a = Some t"
proof (induction n arbitrary: a t m)
  case 0
  then show ?case by simp
next
  case (Suc n)
  then obtain m' where m: "m = Suc m'" "n \<le> m'" by (cases m) auto
  from Suc.prems(1) obtain nd ks ts where
    nd: "node_at hp a = Some nd" and ks: "children hp a = Some ks"
    and ts: "those (map (shape_of n hp) ks) = Some ts" and t: "t = Shape (ncls nd) (nname nd) ts"
    by (auto split: option.splits)
  have "those (map (shape_of m' hp) ks) = Some (map (\<lambda>t. t) ts)"
    using ts by (rule those_map_cong_Some) (use Suc.IH m(2) in blast)
  then show ?case using nd ks t m by simp
qed

lemma those_map_option:
  "those (map (\<lambda>x. map_option f (g x)) xs) = map_option (map f) (those (map g xs))"
  by (induction xs) (auto split: option.splits simp: option.map_comp comp_def)

lemma id_by_shape: "Symbol_id H n hp a = map_option (fingerprint H) (shape_of n hp a)"
proof (induction n arbitrary: a)
  case 0
  then show ?case by simp
next
  case (Suc n)
  have "Symbol_id H n hp = (\<lambda>k. map_option (fingerprint H) (shape_of n hp k))"
    using Suc.IH by blast
  then have "those (map (Symbol_id H n hp) ks)
      = map_option (map (fingerprint H)) (those (map (shape_of n hp) ks))" for ks
    by (simp only: those_map_option)
  then show ?case by (simp add: comp_def split: option.splits)
qed

lemma extendsD:
  assumes "extends hp hp'"
  shows "length (nodes hp) \<le> length (nodes hp')" and "length (lists hp) \<le> length (lists hp')"
    and "a < length (nodes hp) \<Longrightarrow> nodes hp' ! a = nodes hp ! a"
    and "l < length (lists hp) \<Longrightarrow> lists hp' ! l = lists hp ! l"
proof -
  have n: "take (length (nodes hp)) (nodes hp') = nodes hp"
    and l: "take (length (lists hp)) (lists hp') = lists hp"
    using assms by (simp_all add: extends_def)
  show "length (nodes hp) \<le> length (nodes hp')"
    using arg_cong [OF n, of length] by simp
  show "length (lists hp) \<le> length (lists hp')"
    using arg_cong [OF l, of length] by simp
  show "a < length (nodes hp) \<Longrightarrow> nodes hp' ! a = nodes hp ! a"
    using nth_take [of a "length (nodes hp)" "nodes hp'"] n by simp
  show "l < length (lists hp) \<Longrightarrow> lists hp' ! l = lists hp ! l"
    using nth_take [of l "length (lists hp)" "lists hp'"] l by simp
qed

lemma children_like:
  assumes wf: "wf_heap hp" and ex: "extends hp hp'"
    and x: "x < length (nodes hp)" and k: "k < length (nodes hp')"
    and same: "nchildren (nodes hp' ! k) = nchildren (nodes hp ! x)"
  shows "children hp' k = children hp x"
proof (cases "nchildren (nodes hp ! x)")
  case None
  then show ?thesis using same x k by (simp add: children_def node_at_def)
next
  case (Some l)
  have l: "l < length (lists hp)" using wf_heapD(2) [OF wf x Some] .
  then have "l < length (lists hp')" using extendsD(2) [OF ex] by simp
  then show ?thesis using Some same x k l extendsD(4) [OF ex l]
    by (simp add: children_def node_at_def list_at_def)
qed

lemma shape_of_extends:
  assumes wf: "wf_heap hp" and ex: "extends hp hp'"
  shows "a < length (nodes hp) \<Longrightarrow> shape_of n hp' a = shape_of n hp a"
proof (induction n arbitrary: a)
  case 0
  then show ?case by simp
next
  case (Suc n)
  note a = Suc.prems
  have a': "a < length (nodes hp')" using a extendsD(1) [OF ex] by simp
  have nd: "nodes hp' ! a = nodes hp ! a" using extendsD(3) [OF ex a] .
  have ch: "children hp' a = children hp a"
    using children_like [OF wf ex a a'] nd by simp
  from children_wf [OF wf a] obtain ks where
    ks: "children hp a = Some ks" "\<forall>k\<in>set ks. k < length (nodes hp) \<and> rank hp k < rank hp a"
    by blast
  have "those (map (shape_of n hp') ks) = those (map (shape_of n hp) ks)"
    by (rule arg_cong [where f = those]) (use Suc.IH ks(2) in simp)
  then show ?case using ch ks(1) nd a a' by (simp add: node_at_def)
qed

lemma shape_of_like:
  assumes wf: "wf_heap hp" and ex: "extends hp hp'"
    and x: "x < length (nodes hp)" and k: "k < length (nodes hp')"
    and same: "ncls (nodes hp' ! k) = ncls (nodes hp ! x)" "nname (nodes hp' ! k) = nname (nodes hp ! x)"
      "nchildren (nodes hp' ! k) = nchildren (nodes hp ! x)"
  shows "shape_of n hp' k = shape_of n hp x"
proof (cases n)
  case 0
  then show ?thesis by simp
next
  case (Suc m)
  have ch: "children hp' k = children hp x" using children_like [OF wf ex x k same(3)] .
  from children_wf [OF wf x] obtain ks where
    ks: "children hp x = Some ks" "\<forall>k\<in>set ks. k < length (nodes hp) \<and> rank hp k < rank hp x"
    by blast
  have "those (map (shape_of m hp') ks) = those (map (shape_of m hp) ks)"
    by (rule arg_cong [where f = those]) (use shape_of_extends [OF wf ex] ks(2) in simp)
  then show ?thesis using ch ks(1) same x k Suc
    by (simp add: node_at_def split: option.splits)
qed

lemma node_id_by_shape: "node_id H hp a = map_option (fingerprint H) (node_shape hp a)"
  by (simp add: node_id_def node_shape_def id_by_shape)

lemma node_shape_total:
  "wf_heap hp \<Longrightarrow> a < length (nodes hp) \<Longrightarrow> \<exists>t. node_shape hp a = Some t"
  unfolding node_shape_def by (rule shape_of_total)

lemma node_shape_like:
  assumes wf: "wf_heap hp" and wf': "wf_heap hp'" and ex: "extends hp hp'"
    and x: "x < length (nodes hp)" and k: "k < length (nodes hp')"
    and same: "ncls (nodes hp' ! k) = ncls (nodes hp ! x)" "nname (nodes hp' ! k) = nname (nodes hp ! x)"
      "nchildren (nodes hp' ! k) = nchildren (nodes hp ! x)"
  shows "node_shape hp' k = node_shape hp x"
proof -
  obtain t where t: "shape_of (Suc (length (lists hp))) hp x = Some t"
    using shape_of_total [OF wf x] by blast
  have "shape_of (Suc (length (lists hp'))) hp x = Some t"
    by (rule shape_of_mono [OF t]) (use extendsD(2) [OF ex] in simp)
  then show ?thesis
    using t shape_of_like [OF wf ex x k same] by (simp add: node_shape_def)
qed

lemma node_shape_extends:
  assumes "wf_heap hp" "wf_heap hp'" "extends hp hp'" "a < length (nodes hp)"
  shows "node_shape hp' a = node_shape hp a"
proof -
  have "a < length (nodes hp')" using assms(4) extendsD(1) [OF assms(3)] by simp
  then show ?thesis
    using node_shape_like [OF assms(1,2,3,4), of a] extendsD(3) [OF assms(3,4)] by simp
qed

subsection \<open>Copy on attach\<close>

lemma wf_initial: "wf_heap initial_heap"
  by (simp add: wf_heap_def initial_heap_def)

lemma Symbol_new_wf:
  assumes "wf_heap hp" "lists hp \<noteq> []"
  shows "wf_heap (snd (Symbol_new hp name))"
proof -
  have l: "default_children < length (lists hp)" using assms(2) by (simp add: default_children_def)
  obtain r hp' where run: "Symbol_init hp Symbol name default_children = (r, hp')"
    by (cases "Symbol_init hp Symbol name default_children")
  show ?thesis using Symbol_init_spec(1) [OF assms(1) l run] run by (simp add: Symbol_new_def)
qed

lemma extends_lists_nonempty: "extends hp hp' \<Longrightarrow> lists hp \<noteq> [] \<Longrightarrow> lists hp' \<noteq> []"
  using extendsD(2) [of hp hp'] by auto

lemma binary_operator_Ref [simp]:
  "binary_operator op hp a (Ref b) = BinaryOperator_new hp op a b"
  by (simp add: binary_operator_def)

lemma binary_operator_spec:
  assumes wf: "wf_heap hp" and a: "a < length (nodes hp)" and b: "b < length (nodes hp)"
    and run: "binary_operator op hp a (Ref b) = (r, hp')"
  shows "wf_heap hp'" and "extends hp hp'"
    and "if nparent (nodes hp ! a) = None \<and> nparent (nodes hp ! b) = None
         then r = Inr (length (nodes hp)) \<and> hp' = combined hp op a b
         else r = Inl (AssertionError ''Tree internal data is corrupt.'')"
proof -
  have run': "BinaryOperator_new hp op a b = (r, hp')" using run by simp
  note S = BinaryOperator_new_spec [OF wf a b run']
  show "wf_heap hp'" by (rule S(1))
  show "extends hp hp'" using S(2,3) by (simp add: extends_def)
  show "if nparent (nodes hp ! a) = None \<and> nparent (nodes hp ! b) = None
         then r = Inr (length (nodes hp)) \<and> hp' = combined hp op a b
         else r = Inl (AssertionError ''Tree internal data is corrupt.'')"
    by (rule S(4))
qed

lemma combined_children:
  "children (combined hp op a b) (length (nodes hp))
     = Some [Suc (length (nodes hp)), Suc (Suc (length (nodes hp)))]"
  by (simp add: children_def node_at_def list_at_def combined_def nth_append)

lemma combined_nodes:
  "nodes (combined hp op a b) ! Suc (length (nodes hp)) = (nodes hp ! a)\<lparr>nparent := Some (length (nodes hp))\<rparr>"
  "nodes (combined hp op a b) ! Suc (Suc (length (nodes hp))) = (nodes hp ! b)\<lparr>nparent := Some (length (nodes hp))\<rparr>"
  "length (nodes (combined hp op a b)) = length (nodes hp) + 3"
  by (simp_all add: combined_def nth_append)

lemma parent_extends:
  "extends hp hp' \<Longrightarrow> a < length (nodes hp) \<Longrightarrow> parent hp' a = parent hp a"
  using extendsD(1) [of hp hp'] extendsD(3) [of hp hp' a] by (simp add: parent_def node_at_def)

lemma parent_nparent: "a < length (nodes hp) \<Longrightarrow> parent hp a = nparent (nodes hp ! a)"
  by (simp add: parent_def node_at_def)

lemma operator_copy_on_attach:
  assumes wf: "wf_heap hp" and a: "a < length (nodes hp)" and b: "b < length (nodes hp)"
    and run: "binary_operator op hp a (Ref b) = (r, hp')"
  shows "take (length (nodes hp)) (nodes hp') = nodes hp
       \<and> take (length (lists hp)) (lists hp') = lists hp
       \<and> parent hp' a = parent hp a \<and> parent hp' b = parent hp b
       \<and> (\<forall>c. r = Inr c \<longrightarrow>
            length (nodes hp) \<le> c
          \<and> children hp' c = Some [Suc c, Suc (Suc c)]
          \<and> node_id H hp a \<noteq> None \<and> node_id H hp' (Suc c) = node_id H hp a
          \<and> node_id H hp b \<noteq> None \<and> node_id H hp' (Suc (Suc c)) = node_id H hp b)
       \<and> (parent hp a = None \<and> parent hp b = None \<longrightarrow> r = Inr (length (nodes hp)))"
proof -
  note S = binary_operator_spec [OF wf a b run]
  have ex: "extends hp hp'" by (rule S(2))
  have frame: "take (length (nodes hp)) (nodes hp') = nodes hp"
    "take (length (lists hp)) (lists hp') = lists hp"
    using ex by (simp_all add: extends_def)
  have par: "parent hp' a = parent hp a" "parent hp' b = parent hp b"
    using parent_extends [OF ex] a b by simp_all
  have ok: "parent hp a = None \<and> parent hp b = None \<longrightarrow> r = Inr (length (nodes hp))"
    using S(3) a b by (simp add: parent_nparent)
  have ids: "node_id H hp a \<noteq> None" "node_id H hp b \<noteq> None"
    using node_shape_total [OF wf a] node_shape_total [OF wf b]
    by (auto simp: node_id_by_shape)
  have succ: "length (nodes hp) \<le> c
          \<and> children hp' c = Some [Suc c, Suc (Suc c)]
          \<and> node_id H hp' (Suc c) = node_id H hp a
          \<and> node_id H hp' (Suc (Suc c)) = node_id H hp b" if "r = Inr c" for c
  proof -
    have roots: "nparent (nodes hp ! a) = None \<and> nparent (nodes hp ! b) = None"
      using S(3) that by (auto split: if_splits)
    then have c: "c = length (nodes hp)" and h: "hp' = combined hp op a b"
      using S(3) that by simp_all
    have k1: "Suc c < length (nodes hp')" and k2: "Suc (Suc c) < length (nodes hp')"
      using c h combined_nodes(3) [of hp op a b] by simp_all
    have s1: "node_shape hp' (Suc c) = node_shape hp a"
      by (rule node_shape_like [OF wf S(1) ex a k1]) (simp_all add: c h combined_nodes)
    have s2: "node_shape hp' (Suc (Suc c)) = node_shape hp b"
      by (rule node_shape_like [OF wf S(1) ex b k2]) (simp_all add: c h combined_nodes)
    show ?thesis using c h combined_children [of hp op a b] s1 s2
      by (simp add: node_id_by_shape)
  qed
  show ?thesis using frame par ok ids succ by blast
qed

subsection \<open>Evaluation of a base node\<close>

text \<open>
  C5. For every \<open>t\<close> and \<open>y\<close>, given or omitted, \<^verbatim>\<open>evaluate(t, y)\<close> on a node that runs
  the base method fails with \<^verbatim>\<open>NotImplementedError\<close>. The message ends with the node's
  name and with its class as the interpreter prints it. Nothing is returned and the
  store is as it was, so the caller gets the failure at once.
\<close>

theorem evaluate_not_implemented:
  assumes "node_at hp self = Some nd"
  shows "Symbol_evaluate type_str hp self t y =
           (Inl (NotImplementedError
              (''method self.evaluate() not implemented'' @ [CHR 0x0A] @ replicate 15 (CHR '' '')
                 @ ''for symbol '' @ nname nd @ '' of type '' @ type_str (ncls nd))), hp)"
  using assms by (simp add: Symbol_evaluate_def evaluate_message_def Symbol_str_def)

theorem evaluate_not_implemented_witness:
  "node_at \<lparr>nodes = [\<lparr>ncls = Symbol, nname = ''a'', nparent = None, nchildren = None\<rparr>],
            lists = [[]]\<rparr> 0
     = Some \<lparr>ncls = Symbol, nname = ''a'', nparent = None, nchildren = None\<rparr>
   \<and> (Symbol_evaluate (\<lambda>c. ''Symbol'')
        \<lparr>nodes = [\<lparr>ncls = Symbol, nname = ''a'', nparent = None, nchildren = None\<rparr>],
         lists = [[]]\<rparr> 0 (None :: int option) (None :: int list option)
        :: int result)
     = (Inl (NotImplementedError
          (''method self.evaluate() not implemented'' @ [CHR 0x0A] @ replicate 15 (CHR '' '')
             @ ''for symbol a of type Symbol'')),
        \<lparr>nodes = [\<lparr>ncls = Symbol, nname = ''a'', nparent = None, nchildren = None\<rparr>],
         lists = [[]]\<rparr>)"
proof -
  have h: "node_at \<lparr>nodes = [\<lparr>ncls = Symbol, nname = ''a'', nparent = None, nchildren = None\<rparr>],
            lists = [[]]\<rparr> 0
     = Some \<lparr>ncls = Symbol, nname = ''a'', nparent = None, nchildren = None\<rparr>"
    by (simp add: node_at_def)
  show ?thesis
    using h evaluate_not_implemented [OF h, of "\<lambda>c. ''Symbol''" "None :: int option"
        "None :: int list option"]
    by simp
qed

lemma heap_a_eq: "Symbol_new initial_heap ''a'' = (Inr 0, heap_a)"
  by (simp add: heap_a_def) code_simp

lemma heap_ab_eq: "Symbol_new heap_a ''b'' = (Inr 1, heap_ab)"
  by (simp add: heap_ab_def) code_simp

lemma heap_abc_eq: "Symbol_new heap_ab ''c'' = (Inr 2, heap_abc)"
  by (simp add: heap_abc_def) code_simp

lemma heap_sum_eq: "Symbol_add heap_abc 0 (Ref 1) = (Inr 3, heap_sum)"
  by (simp add: heap_sum_def) code_simp

lemma heap_product_eq: "Symbol_mul heap_sum 3 (Ref 2) = (Inr 6, heap_product)"
  by (simp add: heap_product_def) code_simp

lemma heap_abc_nodes: "length (nodes heap_abc) = 3"
  by code_simp

lemma wf_heap_abc: "wf_heap heap_abc"
proof -
  have 0: "lists initial_heap \<noteq> []" by (simp add: initial_heap_def)
  have 1: "wf_heap heap_a" unfolding heap_a_def by (rule Symbol_new_wf [OF wf_initial 0])
  have l1: "lists heap_a \<noteq> []" by code_simp
  have 2: "wf_heap heap_ab" unfolding heap_ab_def by (rule Symbol_new_wf [OF 1 l1])
  have l2: "lists heap_ab \<noteq> []" by code_simp
  show ?thesis unfolding heap_abc_def by (rule Symbol_new_wf [OF 2 l2])
qed



subsection \<open>Operands of the operators\<close>

lemma operators_reject_non_symbols:
  assumes "\<not> isinstance_Symbol other"
  shows "Symbol_add hp self other = (Inl (NotImplementedError []), hp)"
    and "Symbol_sub hp self other = (Inl (NotImplementedError []), hp)"
    and "Symbol_mul hp self other = (Inl (NotImplementedError []), hp)"
    and "Symbol_truediv hp self other = (Inl (NotImplementedError []), hp)"
  using assms by (simp_all add: Symbol_add_def Symbol_sub_def Symbol_mul_def Symbol_truediv_def)

lemma operators_on_symbols:
  assumes wf: "wf_heap hp" and a: "a < length (nodes hp)" and b: "b < length (nodes hp)"
    and run: "f = Symbol_add \<and> op = Addition \<or> f = Symbol_sub \<and> op = Subtraction
            \<or> f = Symbol_mul \<and> op = Multiplication \<or> f = Symbol_truediv \<and> op = Division"
  shows "f hp a (Ref b) =
     (if parent hp a = None \<and> parent hp b = None
      then (Inr (length (nodes hp)), combined hp op a b)
      else (Inl (AssertionError ''Tree internal data is corrupt.''), snd (f hp a (Ref b))))"
proof -
  obtain r hp' where r: "binary_operator op hp a (Ref b) = (r, hp')"
    by (cases "binary_operator op hp a (Ref b)")
  have f: "f hp a (Ref b) = (r, hp')"
    using run r by (auto simp: Symbol_add_def Symbol_sub_def Symbol_mul_def Symbol_truediv_def)
  show ?thesis using binary_operator_spec(3) [OF wf a b r] f a b
    by (simp add: parent_nparent split: if_splits)
qed

text \<open>
  With the assertions of \<^verbatim>\<open>anytree\<close> evaluated (they are unconditional in the releases
  2.4.3 to 2.7.3), an operand that has a parent makes the setter of \<^verbatim>\<open>parent\<close> raise:
  after \<^verbatim>\<open>a = Symbol("a"); b = Symbol("b"); c = Symbol("c"); s = a + b\<close>, the first child
  of \<open>s\<close> is a \<^verbatim>\<open>Symbol\<close> with a parent, and \<^verbatim>\<open>s.children[0] + b\<close> raises the
  \<^verbatim>\<open>AssertionError\<close> of \<^verbatim>\<open>__detach\<close>: the shallow copy of the child still names \<open>s\<close> as
  its parent, and \<open>s\<close> does not hold the copy.
\<close>

lemma operand_with_parent_under_assertions:
  "Symbol_add heap_abc 0 (Ref 1) = (Inr 3, heap_sum)
   \<and> children heap_sum 3 = Some [4, 5]
   \<and> isinstance_Symbol (Ref 1)
   \<and> fst (Symbol_add heap_sum 4 (Ref 1)) = Inl (AssertionError ''Tree internal data is corrupt.'')
   \<and> fst (Symbol_add heap_sum 1 (Ref 4)) = Inl (AssertionError ''Tree internal data is corrupt.'')"
  by (simp add: heap_sum_eq) code_simp

subsection \<open>The id is the fingerprint of the structure\<close>

lemma node_id_unfold:
  assumes wf: "wf_heap hp" and a: "a < length (nodes hp)"
  shows "\<exists>ks ids. children hp a = Some ks
          \<and> those (map (node_id H hp) ks) = Some ids
          \<and> node_id H hp a
              = Some (H (HClass (ncls (nodes hp ! a)) # HStr (nname (nodes hp ! a)) # map HInt ids))"
proof -
  let ?L = "length (lists hp)"
  obtain t where t: "shape_of (Suc ?L) hp a = Some t" using shape_of_total [OF wf a] by blast
  then obtain ks ts where ks: "children hp a = Some ks"
    and ts: "those (map (shape_of ?L hp) ks) = Some ts"
    and t': "t = Shape (ncls (nodes hp ! a)) (nname (nodes hp ! a)) ts"
    using a by (auto simp: node_at_def split: option.splits)
  have "those (map (node_id H hp) ks) = Some (map (fingerprint H) ts)"
    using ts
  proof (rule those_map_cong_Some)
    fix k u assume "k \<in> set ks" "shape_of ?L hp k = Some u"
    then have "shape_of (Suc ?L) hp k = Some u" using shape_of_mono [of ?L hp k u "Suc ?L"] by simp
    then show "node_id H hp k = Some (fingerprint H u)"
      by (simp add: node_id_def id_by_shape)
  qed
  moreover have "node_id H hp a = Some (fingerprint H t)"
    using t by (simp add: node_id_def id_by_shape)
  ultimately show ?thesis using ks t' by (simp add: comp_def)
qed

text \<open>
  C1. In a well-formed store the id of every node is the hash of the tuple of its class,
  its name and the ids of its children in stored order, and every id is defined. Two
  nodes with the same shape (the same classes, names and children, level by level),
  also of different objects and of different stores, have the same id: the hash is the
  same function \<open>H\<close> for both, as it is within one process.
\<close>

theorem id_is_structural_fingerprint:
  assumes "wf_heap hp" and "a < length (nodes hp)"
  shows "(\<exists>ks ids. children hp a = Some ks
            \<and> those (map (node_id H hp) ks) = Some ids
            \<and> node_id H hp a
                = Some (H (HClass (ncls (nodes hp ! a)) # HStr (nname (nodes hp ! a)) # map HInt ids)))
       \<and> (\<forall>hp' b. node_shape hp' b = node_shape hp a \<longrightarrow> node_id H hp' b = node_id H hp a)"
  using node_id_unfold [OF assms] by (simp add: node_id_by_shape)

lemma heap_sum_nodes: "length (nodes heap_sum) = 6"
  by code_simp

lemma wf_heap_sum: "wf_heap heap_sum"
proof -
  have "binary_operator Addition heap_abc 0 (Ref 1) = (Inr 3, heap_sum)"
    using heap_sum_eq by (simp add: Symbol_add_def)
  then show ?thesis
    by (rule binary_operator_spec(1) [OF wf_heap_abc, rotated 2]) (simp_all add: heap_abc_nodes)
qed

theorem id_is_structural_fingerprint_witness:
  "wf_heap heap_sum \<and> 3 < length (nodes heap_sum)
   \<and> children heap_sum 3 = Some [4, 5]
   \<and> node_id (\<lambda>xs. int (length xs)) heap_sum 3 = Some 4
   \<and> node_id (\<lambda>xs. int (length xs)) heap_sum 4 = node_id (\<lambda>xs. int (length xs)) heap_sum 0
   \<and> node_id (\<lambda>xs. int (length xs)) heap_sum 4 = node_id (\<lambda>xs. int (length xs)) heap_abc 0"
proof -
  have a: "3 < length (nodes heap_sum)" by (simp add: heap_sum_nodes)
  have s: "node_shape heap_sum 4 = node_shape heap_sum 0" "node_shape heap_sum 4 = node_shape heap_abc 0"
    by code_simp+
  have c: "children heap_sum 3 = Some [4, 5]" by code_simp
  note T = id_is_structural_fingerprint [OF wf_heap_sum a, of "\<lambda>xs. int (length xs)"]
  from T obtain ks ids where k: "children heap_sum 3 = Some ks"
    "those (map (node_id (\<lambda>xs. int (length xs)) heap_sum) ks) = Some ids"
    "node_id (\<lambda>xs. int (length xs)) heap_sum 3
       = Some (int (length (HClass (ncls (nodes heap_sum ! 3)) # HStr (nname (nodes heap_sum ! 3))
                  # map HInt ids)))"
    by blast
  have "length ids = length ks" using k(2) by (simp add: those_map_Some)
  moreover have "ks = [4, 5]" using k(1) c by simp
  ultimately have "length ids = 2" by simp
  then have i0: "node_id (\<lambda>xs. int (length xs)) heap_sum 3 = Some 4"
    using k(1,3) c by simp
  have z: "0 < length (nodes heap_sum)" "0 < length (nodes heap_abc)"
    by (simp_all add: heap_sum_nodes heap_abc_nodes)
  have i1: "node_id (\<lambda>xs. int (length xs)) heap_sum 4 = node_id (\<lambda>xs. int (length xs)) heap_sum 0"
    by (rule id_is_structural_fingerprint [OF wf_heap_sum z(1), THEN conjunct2, rule_format, OF s(1)])
  have i2: "node_id (\<lambda>xs. int (length xs)) heap_sum 4 = node_id (\<lambda>xs. int (length xs)) heap_abc 0"
    by (rule id_is_structural_fingerprint [OF wf_heap_abc z(2), THEN conjunct2, rule_format, OF s(2)])
  show ?thesis using wf_heap_sum a c i0 i1 i2 by blast
qed

subsection \<open>Ownership of children\<close>




lemma built_children:
  "children (built hp c name cs) (length (nodes hp))
     = Some [Suc (length (nodes hp)) ..< Suc (length (nodes hp)) + length cs]"
  by (simp add: children_def node_at_def list_at_def built_def nth_append)





subsection \<open>Pre-order iteration\<close>

lemma drain_cursor:
  "i < length its \<Longrightarrow>
     drain m hp its i = map_option (\<lambda>(ks, c). (ks, its[i := c])) (run_cursor m hp (its ! i))"
proof (induction m arbitrary: its)
  case 0
  then show ?case by simp
next
  case (Suc m)
  show ?case
  proof (cases "cursor_next hp (its ! i)")
    case None
    then show ?thesis using Suc.prems by (simp add: iter_next_def)
  next
    case (Some rc)
    obtain r c where rc: "rc = (r, c)" by (cases rc)
    show ?thesis
    proof (cases r)
      case None
      then show ?thesis using Some rc Suc.prems by (simp add: iter_next_def)
    next
      case (Some k)
      have "drain m hp (its[i := c]) i
          = map_option (\<lambda>(ks, c'). (ks, its[i := c'])) (run_cursor m hp c)"
        using Suc.IH [of "its[i := c]"] Suc.prems by simp
      then show ?thesis using \<open>cursor_next hp (its ! i) = Some rc\<close> rc Some Suc.prems
        by (simp add: iter_next_def split: option.splits)
    qed
  qed
qed

lemma pop_next_concat:
  "pop_next st = (r, st') \<Longrightarrow>
     (case concat st of [] \<Rightarrow> r = None \<and> st' = [] | k # rest \<Rightarrow> r = Some k \<and> concat st' = rest)"
  by (induction st arbitrary: r st' rule: pop_next.induct) auto

lemma cursor_next_pending:
  assumes "pending hp cur = Some ps"
  shows "case ps of
           [] \<Rightarrow> cursor_next hp cur = Some (None, Cursor None [])
         | k # rest \<Rightarrow> (\<exists>st'. cursor_next hp cur = Some (Some k, Cursor (Some k) st')
                           \<and> concat st' = rest)"
proof -
  obtain pend st where cur: "cur = Cursor pend st" by (cases cur)
  obtain st1 where st1: "(case pend of None \<Rightarrow> Some st
                          | Some k \<Rightarrow> map_option (\<lambda>ks. ks # st) (children hp k)) = Some st1"
    and c: "concat st1 = ps"
    using assms cur by (cases pend) (auto simp: pending_def)
  obtain r st2 where p: "pop_next st1 = (r, st2)" by (cases "pop_next st1")
  from pop_next_concat [OF p] c show ?thesis
    using cur st1 p by (cases ps) (auto simp: cursor_next_def)
qed

lemma those_append:
  "those (xs @ ys) = (case those xs of None \<Rightarrow> None | Some a \<Rightarrow> map_option ((@) a) (those ys))"
  by (induction xs) (cases "those ys"; auto split: option.splits)+

lemma preorder_list_mono:
  "preorder_list n hp a = Some xs \<Longrightarrow> n \<le> m \<Longrightarrow> preorder_list m hp a = Some xs"
proof (induction n arbitrary: a xs m)
  case 0
  then show ?case by simp
next
  case (Suc n)
  then obtain m' where m: "m = Suc m'" "n \<le> m'" by (cases m) auto
  from Suc.prems(1) obtain ks xss where ks: "children hp a = Some ks"
    and xss: "those (map (preorder_list n hp) ks) = Some xss" and xs: "xs = a # concat xss"
    by (auto split: option.splits)
  have "those (map (preorder_list m' hp) ks) = Some (map (\<lambda>t. t) xss)"
    using xss by (rule those_map_cong_Some) (use Suc.IH m(2) in blast)
  then show ?case using ks xs m by simp
qed

lemma run_cursor_preorder:
  "pending hp cur = Some ps \<Longrightarrow> those (map (preorder_list n hp) ps) = Some xss \<Longrightarrow>
     length (concat xss) < m \<Longrightarrow> run_cursor m hp cur = Some (concat xss, Cursor None [])"
proof (induction m arbitrary: cur ps xss)
  case 0
  then show ?case by simp
next
  case (Suc m)
  show ?case
  proof (cases ps)
    case Nil
    then have "xss = []" using Suc.prems(2) by simp
    then show ?thesis using cursor_next_pending [OF Suc.prems(1)] Nil by simp
  next
    case (Cons k rest)
    from cursor_next_pending [OF Suc.prems(1)] Cons obtain st' where
      nx: "cursor_next hp cur = Some (Some k, Cursor (Some k) st')" and st': "concat st' = rest"
      by auto
    from Suc.prems(2) Cons obtain xs xss' where
      xs: "preorder_list n hp k = Some xs" and xss': "those (map (preorder_list n hp) rest) = Some xss'"
      and x: "xss = xs # xss'"
      by (auto split: option.splits)
    from xs obtain n' ks yss where n: "n = Suc n'" and ks: "children hp k = Some ks"
      and yss: "those (map (preorder_list n' hp) ks) = Some yss" and xs': "xs = k # concat yss"
      by (cases n) (auto split: option.splits)
    have up: "preorder_list n hp y = Some t" if "preorder_list n' hp y = Some t" for y t
      using preorder_list_mono [OF that, of n] n by simp
    have "those (map (preorder_list n hp) ks) = Some (map (\<lambda>t. t) yss)"
      using yss by (rule those_map_cong_Some) (rule up)
    then have all: "those (map (preorder_list n hp) (ks @ rest)) = Some (yss @ xss')"
      using xss' by (simp add: those_append)
    have pd: "pending hp (Cursor (Some k) st') = Some (ks @ rest)"
      using ks st' by (simp add: pending_def)
    have len: "length (concat (yss @ xss')) < m" using Suc.prems(3) x xs' by simp
    have "run_cursor m hp (Cursor (Some k) st') = Some (concat (yss @ xss'), Cursor None [])"
      by (rule Suc.IH [OF pd all len])
    then show ?thesis using nx x xs' by simp
  qed
qed

lemma preorder_list_total_aux:
  assumes wf: "wf_heap hp"
  shows "a < length (nodes hp) \<Longrightarrow> rank hp a < n \<Longrightarrow> \<exists>xs. preorder_list n hp a = Some xs"
proof (induction n arbitrary: a)
  case 0
  then show ?case by simp
next
  case (Suc n)
  from children_wf [OF wf Suc.prems(1)] obtain ks where
    ks: "children hp a = Some ks" "\<forall>k\<in>set ks. k < length (nodes hp) \<and> rank hp k < rank hp a"
    by blast
  have "\<exists>t. preorder_list n hp k = Some t" if "k \<in> set ks" for k
    using Suc.IH [of k] ks(2) that Suc.prems(2) by fastforce
  then obtain ts where "those (map (preorder_list n hp) ks) = Some ts"
    using those_map_total by blast
  then show ?case using ks(1) by simp
qed

lemma preorder_list_total:
  assumes "wf_heap hp" "a < length (nodes hp)"
  shows "\<exists>xs. preorder_list (Suc (length (lists hp))) hp a = Some xs"
  using preorder_list_total_aux [OF assms] rank_bound [OF assms] by blast

lemma drain_pre_order:
  assumes p: "preorder_list n hp a = Some xs" and m: "length xs < m"
    and i: "i < length its" "its ! i = Cursor None [[a]]"
  shows "drain m hp its i = Some (xs, its[i := Cursor None []])"
proof -
  have pd: "pending hp (Cursor None [[a]]) = Some [a]" by (simp add: pending_def)
  have th: "those (map (preorder_list n hp) [a]) = Some [xs]" using p by simp
  have "run_cursor m hp (Cursor None [[a]]) = Some (concat [xs], Cursor None [])"
    by (rule run_cursor_preorder [OF pd th]) (use m in simp)
  then show ?thesis using drain_cursor [OF i(1), of m hp] i(2) by simp
qed

lemma combined_facts:
  assumes wf: "wf_heap hp" and a: "a < length (nodes hp)" and b: "b < length (nodes hp)"
    and roots: "parent hp a = None" "parent hp b = None"
  shows "binary_operator op hp a (Ref b) = (Inr (length (nodes hp)), combined hp op a b)"
    and "wf_heap (combined hp op a b)" and "extends hp (combined hp op a b)"
    and "children (combined hp op a b) (Suc (length (nodes hp))) = children hp a"
    and "children (combined hp op a b) (Suc (Suc (length (nodes hp)))) = children hp b"
    and "x < length (nodes hp) \<Longrightarrow> children (combined hp op a b) x = children hp x"
    and "parent (combined hp op a b) (length (nodes hp)) = None"
proof -
  let ?h = "combined hp op a b" and ?n = "length (nodes hp)"
  obtain r hp' where r: "binary_operator op hp a (Ref b) = (r, hp')"
    by (cases "binary_operator op hp a (Ref b)")
  note S = binary_operator_spec [OF wf a b r]
  have eq: "r = Inr ?n" "hp' = ?h" using S(3) roots a b by (simp_all add: parent_nparent)
  show "binary_operator op hp a (Ref b) = (Inr ?n, ?h)" using r eq by simp
  show wf': "wf_heap ?h" using S(1) eq by simp
  show ex: "extends hp ?h" using S(2) eq by simp
  have k1: "Suc ?n < length (nodes ?h)" and k2: "Suc (Suc ?n) < length (nodes ?h)"
    by (simp_all add: combined_nodes)
  show "children ?h (Suc ?n) = children hp a"
    by (rule children_like [OF wf ex a k1]) (simp add: combined_nodes)
  show "children ?h (Suc (Suc ?n)) = children hp b"
    by (rule children_like [OF wf ex b k2]) (simp add: combined_nodes)
  show "children ?h x = children hp x" if x: "x < ?n" for x
  proof -
    have x': "x < length (nodes ?h)" using x by (simp add: combined_nodes)
    show ?thesis by (rule children_like [OF wf ex x x']) (simp add: extendsD(3) [OF ex x])
  qed
  show "parent ?h ?n = None"
    by (simp add: parent_def node_at_def combined_def nth_append)
qed

lemma pre_order_of_product_aux:
  assumes wf: "wf_heap hp"
    and v: "a < length (nodes hp)" "b < length (nodes hp)" "c < length (nodes hp)"
    and roots: "parent hp a = None" "parent hp b = None" "parent hp c = None"
    and leaves: "children hp a = Some []" "children hp b = Some []" "children hp c = Some []"
  defines "s \<equiv> length (nodes hp)"
  defines "h1 \<equiv> combined hp Addition a b"
  defines "m \<equiv> s + 3"
  defines "h2 \<equiv> combined h1 Multiplication s c"
  shows "Symbol_add hp a (Ref b) = (Inr s, h1)" and "Symbol_mul h1 s (Ref c) = (Inr m, h2)"
    and "preorder_list 3 h2 m = Some [m, Suc m, Suc s, Suc (Suc s), Suc (Suc m)]"
    and "children h2 m = Some [Suc m, Suc (Suc m)]"
    and "children h2 (Suc m) = Some [Suc s, Suc (Suc s)]"
    and "map (\<lambda>k. nname (nodes h2 ! k)) [m, Suc m, Suc s, Suc (Suc s), Suc (Suc m)]
           = [''*'', ''+'', nname (nodes hp ! a), nname (nodes hp ! b), nname (nodes hp ! c)]"
    and "map (\<lambda>k. ncls (nodes h2 ! k)) [m, Suc m, Suc s, Suc (Suc s), Suc (Suc m)]
           = [BinaryOperator Multiplication, BinaryOperator Addition,
              ncls (nodes hp ! a), ncls (nodes hp ! b), ncls (nodes hp ! c)]"
proof -
  note A = combined_facts [OF wf v(1,2) roots(1,2), where op = Addition, folded h1_def s_def]
  have len1: "length (nodes h1) = m" by (simp add: h1_def m_def s_def combined_nodes)
  have s1: "s < length (nodes h1)" and c1: "c < length (nodes h1)"
    using v len1 by (simp_all add: m_def s_def)
  have pc: "parent h1 c = None" using parent_extends [OF A(3) v(3)] roots(3) by simp
  note M = combined_facts [OF A(2) s1 c1 A(7) pc, where op = Multiplication, folded h2_def, unfolded len1]
  show "Symbol_add hp a (Ref b) = (Inr s, h1)" using A(1) by (simp add: Symbol_add_def)
  show "Symbol_mul h1 s (Ref c) = (Inr m, h2)" using M(1) by (simp add: Symbol_mul_def)
  show ch_m: "children h2 m = Some [Suc m, Suc (Suc m)]"
    using combined_children [of h1 Multiplication s c] by (simp add: h2_def len1)
  show ch_s': "children h2 (Suc m) = Some [Suc s, Suc (Suc s)]"
    using M(4) combined_children [of hp Addition a b] by (simp add: h1_def s_def)
  have ch_a: "children h2 (Suc s) = Some []"
    using M(6) [of "Suc s"] A(4) leaves(1) by (simp add: m_def)
  have ch_b: "children h2 (Suc (Suc s)) = Some []"
    using M(6) [of "Suc (Suc s)"] A(5) leaves(2) by (simp add: m_def)
  have ch_c: "children h2 (Suc (Suc m)) = Some []"
    using M(5) A(6) [OF v(3) [folded s_def]] leaves(3) by simp
  show "preorder_list 3 h2 m = Some [m, Suc m, Suc s, Suc (Suc s), Suc (Suc m)]"
    using ch_m ch_s' ch_a ch_b ch_c by (simp add: eval_nat_numeral)
  have e: "Suc (Suc (Suc (length (nodes hp)))) = length (nodes h1)"
    by (simp add: h1_def combined_nodes)
  show "map (\<lambda>k. nname (nodes h2 ! k)) [m, Suc m, Suc s, Suc (Suc s), Suc (Suc m)]
           = [''*'', ''+'', nname (nodes hp ! a), nname (nodes hp ! b), nname (nodes hp ! c)]"
    using v by (simp add: h2_def h1_def m_def s_def combined_def nth_append operator_name_def)
  show "map (\<lambda>k. ncls (nodes h2 ! k)) [m, Suc m, Suc s, Suc (Suc s), Suc (Suc m)]
           = [BinaryOperator Multiplication, BinaryOperator Addition,
              ncls (nodes hp ! a), ncls (nodes hp ! b), ncls (nodes hp ! c)]"
    using v by (simp add: h2_def h1_def m_def s_def combined_def nth_append)
qed

lemma heap_product_nodes: "length (nodes heap_product) = 9"
  by code_simp

lemma wf_heap_product: "wf_heap heap_product"
proof -
  have "binary_operator Multiplication heap_sum 3 (Ref 2) = (Inr 6, heap_product)"
    using heap_product_eq by (simp add: Symbol_mul_def)
  then show ?thesis
    by (rule binary_operator_spec(1) [OF wf_heap_sum, rotated 2]) (simp_all add: heap_sum_nodes)
qed

text \<open>
  C6. Let \<open>a\<close>, \<open>b\<close> and \<open>c\<close> be leaves: objects of a well-formed store without a parent
  and without children. Then \<^verbatim>\<open>a + b\<close> returns a node \<open>s\<close>, \<^verbatim>\<open>s * c\<close> returns a node
  \<open>m\<close>, and an iterator that \<^verbatim>\<open>m.pre_order()\<close> returns ends after exactly five nodes: the
  multiplication \<open>m\<close>, its first child (the addition, the copy of \<open>s\<close>), the children of
  the addition (the copies of \<open>a\<close> and of \<open>b\<close> that \<^verbatim>\<open>a + b\<close> made), and the second child of
  \<open>m\<close> (the copy of \<open>c\<close>).
\<close>

theorem pre_order_of_product:
  assumes "wf_heap hp"
    and "a < length (nodes hp)" "b < length (nodes hp)" "c < length (nodes hp)"
    and "parent hp a = None" "parent hp b = None" "parent hp c = None"
    and "children hp a = Some []" "children hp b = Some []" "children hp c = Some []"
  shows "\<exists>s h1 m h2.
           s = length (nodes hp) \<and> m = s + 3
         \<and> Symbol_add hp a (Ref b) = (Inr s, h1) \<and> Symbol_mul h1 s (Ref c) = (Inr m, h2)
         \<and> (\<forall>its. drain 6 h2 (snd (pre_order its m)) (fst (pre_order its m))
                    = Some ([m, Suc m, Suc s, Suc (Suc s), Suc (Suc m)],
                            (snd (pre_order its m))[fst (pre_order its m) := Cursor None []]))
         \<and> children h2 m = Some [Suc m, Suc (Suc m)]
         \<and> children h2 (Suc m) = Some [Suc s, Suc (Suc s)]
         \<and> map (\<lambda>k. nname (nodes h2 ! k)) [m, Suc m, Suc s, Suc (Suc s), Suc (Suc m)]
             = [''*'', ''+'', nname (nodes hp ! a), nname (nodes hp ! b), nname (nodes hp ! c)]
         \<and> map (\<lambda>k. ncls (nodes h2 ! k)) [m, Suc m, Suc s, Suc (Suc s), Suc (Suc m)]
             = [BinaryOperator Multiplication, BinaryOperator Addition,
                ncls (nodes hp ! a), ncls (nodes hp ! b), ncls (nodes hp ! c)]"
proof -
  let ?s = "length (nodes hp)"
  let ?m = "?s + 3"
  let ?h1 = "combined hp Addition a b"
  let ?h2 = "combined ?h1 Multiplication ?s c"
  note P = pre_order_of_product_aux [OF assms]
  have d: "drain 6 ?h2 (snd (pre_order its ?m)) (fst (pre_order its ?m))
         = Some ([?m, Suc ?m, Suc ?s, Suc (Suc ?s), Suc (Suc ?m)],
                 (snd (pre_order its ?m))[fst (pre_order its ?m) := Cursor None []])" for its
    by (rule drain_pre_order [OF P(3)]) (simp_all add: pre_order_def)
  show ?thesis
    apply (rule exI [of _ ?s], rule exI [of _ ?h1], rule exI [of _ ?m], rule exI [of _ ?h2])
    apply (intro conjI allI refl P(1,2,4,5,6,7) d)
    done
qed

theorem pre_order_of_product_witness:
  "wf_heap heap_abc
   \<and> 0 < length (nodes heap_abc) \<and> 1 < length (nodes heap_abc) \<and> 2 < length (nodes heap_abc)
   \<and> parent heap_abc 0 = None \<and> parent heap_abc 1 = None \<and> parent heap_abc 2 = None
   \<and> children heap_abc 0 = Some [] \<and> children heap_abc 1 = Some [] \<and> children heap_abc 2 = Some []
   \<and> Symbol_add heap_abc 0 (Ref 1) = (Inr 3, heap_sum)
   \<and> Symbol_mul heap_sum 3 (Ref 2) = (Inr 6, heap_product)
   \<and> drain 6 heap_product (snd (pre_order [] 6)) (fst (pre_order [] 6))
       = Some ([6, 7, 4, 5, 8], [Cursor None []])"
proof -
  have v: "0 < length (nodes heap_abc)" "1 < length (nodes heap_abc)" "2 < length (nodes heap_abc)"
    by (simp_all add: heap_abc_nodes)
  have p: "parent heap_abc 0 = None" "parent heap_abc 1 = None" "parent heap_abc 2 = None"
    by code_simp+
  have c: "children heap_abc 0 = Some []" "children heap_abc 1 = Some []"
    "children heap_abc 2 = Some []"
    by code_simp+
  from pre_order_of_product [OF wf_heap_abc v p c] obtain s h1 m h2 where
    s: "s = length (nodes heap_abc)" and m: "m = s + 3"
    and r1: "Symbol_add heap_abc 0 (Ref 1) = (Inr s, h1)"
    and r2: "Symbol_mul h1 s (Ref 2) = (Inr m, h2)"
    and d: "\<forall>its. drain 6 h2 (snd (pre_order its m)) (fst (pre_order its m))
                    = Some ([m, Suc m, Suc s, Suc (Suc s), Suc (Suc m)],
                            (snd (pre_order its m))[fst (pre_order its m) := Cursor None []])"
    by blast
  have s3: "s = 3" and m6: "m = 6" using s m by (simp_all add: heap_abc_nodes)
  have h1: "h1 = heap_sum" using r1 heap_sum_eq by simp
  have h2: "h2 = heap_product" using r2 heap_product_eq h1 s3 by simp
  have "drain 6 heap_product (snd (pre_order [] 6)) (fst (pre_order [] 6))
       = Some ([6, 7, 4, 5, 8], [Cursor None []])"
    using d [rule_format, of "[]"] by (simp add: s3 m6 h2 pre_order_def)
  then show ?thesis using wf_heap_abc v p c heap_sum_eq heap_product_eq by blast
qed

text \<open>
  C8. In a well-formed store, two calls of \<^verbatim>\<open>pre_order()\<close> on the same node give two
  different iterator objects. Read to their ends, one after the other and with the store
  unchanged, both end and give the same nodes in the same order, the pre-order of the
  tree; reading the first does not move the second.
\<close>

theorem pre_order_restartable:
  assumes "wf_heap hp" and "a < length (nodes hp)"
    and "pre_order its a = (i1, its1)" and "pre_order its1 a = (i2, its2)"
  shows "i1 \<noteq> i2
       \<and> (\<exists>xs. preorder_list (Suc (length (lists hp))) hp a = Some xs
            \<and> (\<forall>m>length xs. \<exists>its3 its4.
                   drain m hp its2 i1 = Some (xs, its3) \<and> its3 ! i2 = its2 ! i2
                 \<and> drain m hp its3 i2 = Some (xs, its4)))"
proof -
  let ?c = "Cursor None [[a]]"
  have i: "i1 = length its" "its1 = its @ [?c]" "i2 = Suc (length its)" "its2 = its @ [?c, ?c]"
    using assms(3,4) by (auto simp: pre_order_def)
  obtain xs where xs: "preorder_list (Suc (length (lists hp))) hp a = Some xs"
    using preorder_list_total [OF assms(1,2)] by blast
  have "\<exists>its3 its4. drain m hp its2 i1 = Some (xs, its3) \<and> its3 ! i2 = its2 ! i2
                 \<and> drain m hp its3 i2 = Some (xs, its4)" if m: "length xs < m" for m
  proof -
    let ?its3 = "its2[i1 := Cursor None []]"
    have 1: "drain m hp its2 i1 = Some (xs, ?its3)"
      by (rule drain_pre_order [OF xs m]) (simp_all add: i nth_append)
    have 2: "?its3 ! i2 = its2 ! i2" by (simp add: i nth_append)
    have 3: "drain m hp ?its3 i2 = Some (xs, ?its3[i2 := Cursor None []])"
      by (rule drain_pre_order [OF xs m]) (simp_all add: i nth_append)
    show ?thesis using 1 2 3 by blast
  qed
  then have "\<forall>m>length xs. \<exists>its3 its4.
                   drain m hp its2 i1 = Some (xs, its3) \<and> its3 ! i2 = its2 ! i2
                 \<and> drain m hp its3 i2 = Some (xs, its4)" by blast
  moreover have "i1 \<noteq> i2" using i by simp
  ultimately show ?thesis using xs by blast
qed

theorem pre_order_restartable_witness:
  "wf_heap heap_product \<and> 6 < length (nodes heap_product)
   \<and> pre_order [] 6 = (0, [Cursor None [[6]]])
   \<and> pre_order [Cursor None [[6]]] 6 = (1, [Cursor None [[6]], Cursor None [[6]]])
   \<and> (0 :: nat) \<noteq> 1
   \<and> preorder_list (Suc (length (lists heap_product))) heap_product 6 = Some [6, 7, 4, 5, 8]
   \<and> drain 6 heap_product [Cursor None [[6]], Cursor None [[6]]] 0
       = Some ([6, 7, 4, 5, 8], [Cursor None [], Cursor None [[6]]])
   \<and> map_option fst (drain 6 heap_product [Cursor None [], Cursor None [[6]]] 1)
       = Some [6, 7, 4, 5, 8]"
proof -
  have a: "6 < length (nodes heap_product)" by (simp add: heap_product_nodes)
  have p1: "pre_order [] 6 = (0, [Cursor None [[6]]])"
    and p2: "pre_order [Cursor None [[6]]] 6 = (1, [Cursor None [[6]], Cursor None [[6]]])"
    by (simp_all add: pre_order_def)
  have l: "preorder_list (Suc (length (lists heap_product))) heap_product 6 = Some [6, 7, 4, 5, 8]"
    by code_simp
  have d: "drain 6 heap_product [Cursor None [[6]], Cursor None [[6]]] 0
       = Some ([6, 7, 4, 5, 8], [Cursor None [], Cursor None [[6]]])"
    by code_simp
  from pre_order_restartable [OF wf_heap_product a p1 p2] obtain xs where
    n: "(0 :: nat) \<noteq> 1"
    and x: "preorder_list (Suc (length (lists heap_product))) heap_product 6 = Some xs"
    and r: "\<forall>m>length xs. \<exists>its3 its4.
        drain m heap_product [Cursor None [[6]], Cursor None [[6]]] 0 = Some (xs, its3)
      \<and> its3 ! 1 = [Cursor None [[6]], Cursor None [[6]]] ! 1
      \<and> drain m heap_product its3 1 = Some (xs, its4)"
    by blast
  have xs: "xs = [6, 7, 4, 5, 8]" using x l by simp
  then have "length xs < 6" by simp
  with r obtain its3 its4 where
    r1: "drain 6 heap_product [Cursor None [[6]], Cursor None [[6]]] 0 = Some (xs, its3)"
    and r2: "drain 6 heap_product its3 1 = Some (xs, its4)"
    by blast
  have "its3 = [Cursor None [], Cursor None [[6]]]" using r1 d by simp
  then have "map_option fst (drain 6 heap_product [Cursor None [], Cursor None [[6]]] 1)
       = Some [6, 7, 4, 5, 8]"
    using r2 xs by simp
  then show ?thesis using wf_heap_product a p1 p2 n l d by blast
qed

subsection \<open>The children collection given to the constructor\<close>

lemma extends_refl: "extends hp hp"
  by (simp add: extends_def)

lemma extends_trans:
  assumes "extends h1 h2" "extends h2 h3"
  shows "extends h1 h3"
proof -
  have n: "length (nodes h1) \<le> length (nodes h2)" and l: "length (lists h1) \<le> length (lists h2)"
    using extendsD(1,2) [OF assms(1)] by simp_all
  have "take (length (nodes h1)) (take (length (nodes h2)) (nodes h3)) = nodes h1"
    and "take (length (lists h1)) (take (length (lists h2)) (lists h3)) = lists h1"
    using assms by (simp_all add: extends_def)
  then show ?thesis using n l by (simp add: extends_def min_def)
qed

lemma run_call_spec:
  assumes "wf_heap hp" "call_valid hp c"
  shows "wf_heap (run_call hp c)" and "extends hp (run_call hp c)"
proof -
  show "wf_heap (run_call hp c)"
  proof (cases c)
    case (MakeList xs)
    then show ?thesis using assms wf_new_list [OF assms(1), of xs] by (simp add: list_all_iff)
  next
    case (Construct k name l)
    obtain r hp' where r: "Symbol_init hp k name l = (r, hp')" by (cases "Symbol_init hp k name l")
    then show ?thesis using Construct assms Symbol_init_spec(1) [OF assms(1) _ r] by simp
  qed
  show "extends hp (run_call hp c)"
  proof (cases c)
    case (MakeList xs)
    then show ?thesis by (simp add: extends_def)
  next
    case (Construct k name l)
    obtain r hp' where r: "Symbol_init hp k name l = (r, hp')" by (cases "Symbol_init hp k name l")
    then show ?thesis using Construct assms Symbol_init_spec(2,3) [OF assms(1) _ r]
      by (simp add: extends_def)
  qed
qed

lemma run_calls_spec:
  "wf_heap hp \<Longrightarrow> calls_valid hp cs \<Longrightarrow> wf_heap (run_calls hp cs) \<and> extends hp (run_calls hp cs)"
proof (induction cs arbitrary: hp)
  case Nil
  then show ?case by (simp add: extends_refl)
next
  case (Cons c cs)
  have v: "call_valid hp c" "calls_valid (run_call hp c) cs" using Cons.prems(2) by simp_all
  note S = run_call_spec [OF Cons.prems(1) v(1)]
  from Cons.IH [OF S(1) v(2)] S(2) show ?case using extends_trans by auto
qed

lemma Symbol_new_default_empty:
  assumes wf: "wf_heap hp" and d: "list_at hp default_children = Some []"
  shows "Symbol_new hp name = (Inr (length (nodes hp)), built hp Symbol name [])"
    and "children (built hp Symbol name []) (length (nodes hp)) = Some []"
    and "list_at (built hp Symbol name []) default_children = Some []"
proof -
  have l: "default_children < length (lists hp)" "lists hp ! default_children = []"
    using d by (auto simp: list_at_def split: if_splits)
  obtain r hp' where r: "Symbol_init hp Symbol name default_children = (r, hp')"
    by (cases "Symbol_init hp Symbol name default_children")
  show "Symbol_new hp name = (Inr (length (nodes hp)), built hp Symbol name [])"
    using Symbol_init_spec(4) [OF wf l(1) r] l(2) r by (simp add: Symbol_new_def)
  show "children (built hp Symbol name []) (length (nodes hp)) = Some []"
    using built_children [of hp Symbol name "[]"] by simp
  show "list_at (built hp Symbol name []) default_children = Some []"
    using d by (auto simp: built_def list_at_def nth_append split: if_splits)
qed

text \<open>
  C10. In a well-formed store, after any sequence of valid calls every list object that
  existed before has the elements it had: no constructor call changes the collection it
  is given, nor any other. So the default list, once empty, stays empty, and a
  \<^verbatim>\<open>Symbol\<close> constructed afterwards without children has no children.
\<close>

theorem constructor_keeps_children_collection:
  assumes "wf_heap hp" and "calls_valid hp cs"
  shows "take (length (lists hp)) (lists (run_calls hp cs)) = lists hp
       \<and> (\<forall>l. l < length (lists hp) \<longrightarrow> list_at (run_calls hp cs) l = list_at hp l)
       \<and> (list_at hp default_children = Some [] \<longrightarrow>
            list_at (run_calls hp cs) default_children = Some []
          \<and> (\<forall>name. \<exists>N hp'. Symbol_new (run_calls hp cs) name = (Inr N, hp')
                \<and> children hp' N = Some [] \<and> list_at hp' default_children = Some []))"
proof -
  let ?h = "run_calls hp cs"
  have wf: "wf_heap ?h" and ex: "extends hp ?h" using run_calls_spec [OF assms] by simp_all
  have 1: "take (length (lists hp)) (lists ?h) = lists hp" using ex by (simp add: extends_def)
  have 2: "list_at ?h l = list_at hp l" if "l < length (lists hp)" for l
    using that extendsD(2,4) [OF ex] by (simp add: list_at_def)
  have 3: "list_at ?h default_children = Some []
          \<and> (\<forall>name. \<exists>N hp'. Symbol_new ?h name = (Inr N, hp')
                \<and> children hp' N = Some [] \<and> list_at hp' default_children = Some [])"
    if d: "list_at hp default_children = Some []"
  proof -
    have "default_children < length (lists hp)" using d by (simp add: list_at_def split: if_splits)
    then have d': "list_at ?h default_children = Some []" using 2 d by simp
    show ?thesis using d' Symbol_new_default_empty [OF wf d'] by blast
  qed
  show ?thesis using 1 2 3 by blast
qed

theorem constructor_keeps_children_collection_witness:
  "wf_heap initial_heap \<and> calls_valid initial_heap example_calls
   \<and> take (length (lists initial_heap)) (lists (run_calls initial_heap example_calls))
       = lists initial_heap
   \<and> list_at initial_heap default_children = Some []
   \<and> list_at (run_calls initial_heap example_calls) default_children = Some []
   \<and> children (run_calls initial_heap example_calls) 2 = Some [3, 4]
   \<and> fst (Symbol_new (run_calls initial_heap example_calls) ''z'') = Inr 5
   \<and> children (snd (Symbol_new (run_calls initial_heap example_calls) ''z'')) 5 = Some []"
proof -
  have v: "calls_valid initial_heap example_calls" by code_simp
  have d: "list_at initial_heap default_children = Some []" by code_simp
  have c: "children (run_calls initial_heap example_calls) 2 = Some [3, 4]" by code_simp
  have n: "fst (Symbol_new (run_calls initial_heap example_calls) ''z'') = Inr 5" by code_simp
  note T = constructor_keeps_children_collection [OF wf_initial v]
  from T d obtain N hp' where
    r: "Symbol_new (run_calls initial_heap example_calls) ''z'' = (Inr N, hp')"
    and k: "children hp' N = Some []" by blast
  have "N = 5" using r n by simp
  then have z: "children (snd (Symbol_new (run_calls initial_heap example_calls) ''z'')) 5 = Some []"
    using r k by simp
  show ?thesis using wf_initial v d c n z T by blast
qed

subsection \<open>Validation in the submesh constructor\<close>

lemma first_item: "lims \<noteq> [] \<Longrightarrow> map_of lims (fst (lims ! 0)) = Some (snd (lims ! 0))"
  by (cases lims) auto

text \<open>
  C9, as the claim states it, fails. With the variables \<open>y\<close> and \<open>x\<close> of one coordinate
  system and no entry for \<open>y\<close> in \<^verbatim>\<open>npts\<close>, the name \<open>x\<close> is outside \<open>{y, z}\<close>, but the
  constructor raises \<^verbatim>\<open>KeyError\<close>, not \<^verbatim>\<open>DomainError\<close>: it looks up the points of \<open>y\<close>
  before it checks the name of the second variable.
\<close>

theorem submesh_validation_counterexample:
  "length [(var_y, unit_interval), (var_x, unit_interval)] = 2
   \<and> sv_coord_sys var_y = sv_coord_sys var_x
   \<and> sv_name var_x \<notin> {''y'', ''z''}
   \<and> (ScikitChebyshev2DSubMesh_init (\<lambda>a b n. []) (\<lambda>edges coord_sys tabs. Inr ())
         [(var_y, unit_interval), (var_x, unit_interval)] Map.empty ()
        :: mesh_error + unit) = Inl KeyError"
  by (simp add: ScikitChebyshev2DSubMesh_init_def var_y_def var_x_def)

text \<open>
  C9, amended. The constructor fails with \<^verbatim>\<open>GeometryError\<close> whenever \<^verbatim>\<open>lims\<close> does not
  hold exactly two variables. With two variables it fails with \<^verbatim>\<open>DomainError\<close> whenever
  their coordinate systems differ, whenever the name of the first is outside \<open>{y, z}\<close>,
  and whenever the name of the second is outside \<open>{y, z}\<close> and the number of points and
  the limits of the first were found. In each of these cases the result is the same for
  every constructor of the base class: no submesh object is built.
\<close>

theorem submesh_validation:
  "(length lims \<noteq> 2 \<longrightarrow>
      ScikitChebyshev2DSubMesh_init cheb base_init lims npts tabs
        = Inl (GeometryError (length lims)))
 \<and> (length lims = 2 \<and> sv_coord_sys (fst (lims ! 0)) \<noteq> sv_coord_sys (fst (lims ! 1)) \<longrightarrow>
      ScikitChebyshev2DSubMesh_init cheb base_init lims npts tabs
        = Inl (DomainError [sv_coord_sys (fst (lims ! 0)), sv_coord_sys (fst (lims ! 1))]))
 \<and> (length lims = 2 \<and> sv_coord_sys (fst (lims ! 0)) = sv_coord_sys (fst (lims ! 1))
      \<and> sv_name (fst (lims ! 0)) \<notin> {''y'', ''z''} \<longrightarrow>
      ScikitChebyshev2DSubMesh_init cheb base_init lims npts tabs
        = Inl (DomainError [sv_name (fst (lims ! 0))]))
 \<and> (length lims = 2 \<and> sv_coord_sys (fst (lims ! 0)) = sv_coord_sys (fst (lims ! 1))
      \<and> sv_name (fst (lims ! 0)) \<in> {''y'', ''z''}
      \<and> npts (sv_id (fst (lims ! 0))) \<noteq> None
      \<and> snd (lims ! 0) ''min'' \<noteq> None \<and> snd (lims ! 0) ''max'' \<noteq> None
      \<and> sv_name (fst (lims ! 1)) \<notin> {''y'', ''z''} \<longrightarrow>
      ScikitChebyshev2DSubMesh_init cheb base_init lims npts tabs
        = Inl (DomainError [sv_name (fst (lims ! 1))]))"
proof -
  have two: "\<exists>v0 l0 v1 l1. lims = [(v0, l0), (v1, l1)]" if "length lims = 2"
    using that by (cases lims; cases "tl lims") (auto simp: length_Suc_conv)
  show ?thesis
  proof (cases "length lims = 2")
    case False
    then show ?thesis by (simp add: ScikitChebyshev2DSubMesh_init_def)
  next
    case True
    then obtain v0 l0 v1 l1 where l: "lims = [(v0, l0), (v1, l1)]" using two by blast
    show ?thesis
      unfolding l by (auto simp: ScikitChebyshev2DSubMesh_init_def)
  qed
qed

theorem submesh_validation_witness:
  "length [(var_y, unit_interval)] \<noteq> 2
   \<and> (ScikitChebyshev2DSubMesh_init (\<lambda>a b n. []) (\<lambda>edges coord_sys tabs. Inr ())
         [(var_y, unit_interval)] [1 \<mapsto> 5] () :: mesh_error + unit)
       = Inl (GeometryError 1)
   \<and> length [(var_y, unit_interval), (var_r, unit_interval)] = 2
   \<and> sv_coord_sys var_y \<noteq> sv_coord_sys var_r
   \<and> (ScikitChebyshev2DSubMesh_init (\<lambda>a b n. []) (\<lambda>edges coord_sys tabs. Inr ())
         [(var_y, unit_interval), (var_r, unit_interval)] [1 \<mapsto> 5] () :: mesh_error + unit)
       = Inl (DomainError [''cartesian'', ''polar''])
   \<and> sv_coord_sys var_x = sv_coord_sys var_y \<and> sv_name var_x \<notin> {''y'', ''z''}
   \<and> (ScikitChebyshev2DSubMesh_init (\<lambda>a b n. []) (\<lambda>edges coord_sys tabs. Inr ())
         [(var_x, unit_interval), (var_y, unit_interval)] [1 \<mapsto> 5] () :: mesh_error + unit)
       = Inl (DomainError [''x''])
   \<and> sv_name var_y \<in> {''y'', ''z''} \<and> [1 \<mapsto> 5 :: int] (sv_id var_y) \<noteq> None
   \<and> unit_interval ''min'' \<noteq> None \<and> unit_interval ''max'' \<noteq> None
   \<and> (ScikitChebyshev2DSubMesh_init (\<lambda>a b n. []) (\<lambda>edges coord_sys tabs. Inr ())
         [(var_y, unit_interval), (var_x, unit_interval)] [1 \<mapsto> 5] () :: mesh_error + unit)
       = Inl (DomainError [''x''])"
proof -
  note T = submesh_validation [of _ "\<lambda>a b n. []" "\<lambda>edges coord_sys tabs. Inr ()" "[1 \<mapsto> 5]" "()"]
  have 1: "(ScikitChebyshev2DSubMesh_init (\<lambda>a b n. []) (\<lambda>edges coord_sys tabs. Inr ())
         [(var_y, unit_interval)] [1 \<mapsto> 5] () :: mesh_error + unit) = Inl (GeometryError 1)"
    using T [of "[(var_y, unit_interval)]", THEN conjunct1] by simp
  have 2: "(ScikitChebyshev2DSubMesh_init (\<lambda>a b n. []) (\<lambda>edges coord_sys tabs. Inr ())
         [(var_y, unit_interval), (var_r, unit_interval)] [1 \<mapsto> 5] () :: mesh_error + unit)
       = Inl (DomainError [''cartesian'', ''polar''])"
    using T [of "[(var_y, unit_interval), (var_r, unit_interval)]", THEN conjunct2, THEN conjunct1]
    by (simp add: var_y_def var_r_def)
  have 3: "(ScikitChebyshev2DSubMesh_init (\<lambda>a b n. []) (\<lambda>edges coord_sys tabs. Inr ())
         [(var_x, unit_interval), (var_y, unit_interval)] [1 \<mapsto> 5] () :: mesh_error + unit)
       = Inl (DomainError [''x''])"
    using T [of "[(var_x, unit_interval), (var_y, unit_interval)]", THEN conjunct2, THEN conjunct2,
        THEN conjunct1]
    by (simp add: var_y_def var_x_def)
  have 4: "(ScikitChebyshev2DSubMesh_init (\<lambda>a b n. []) (\<lambda>edges coord_sys tabs. Inr ())
         [(var_y, unit_interval), (var_x, unit_interval)] [1 \<mapsto> 5] () :: mesh_error + unit)
       = Inl (DomainError [''x''])"
    using T [of "[(var_y, unit_interval), (var_x, unit_interval)]", THEN conjunct2, THEN conjunct2,
        THEN conjunct2]
    by (simp add: var_y_def var_x_def unit_interval_def)
  have side: "length [(var_y, unit_interval)] \<noteq> 2"
    "length [(var_y, unit_interval), (var_r, unit_interval)] = 2"
    "sv_coord_sys var_y \<noteq> sv_coord_sys var_r"
    "sv_coord_sys var_x = sv_coord_sys var_y" "sv_name var_x \<notin> {''y'', ''z''}"
    "sv_name var_y \<in> {''y'', ''z''}" "[1 \<mapsto> 5 :: int] (sv_id var_y) \<noteq> None"
    "unit_interval ''min'' \<noteq> None" "unit_interval ''max'' \<noteq> None"
    by (simp_all add: var_y_def var_x_def var_r_def unit_interval_def)
  show ?thesis using 1 2 3 4 side by blast
qed

subsection \<open>The order of children and the hash\<close>

lemma sum_id:
  assumes wf: "wf_heap hp" and a: "a < length (nodes hp)" and b: "b < length (nodes hp)"
    and run: "Symbol_add hp a (Ref b) = (Inr s, h1)"
  shows "\<exists>ia ib. node_id H hp a = Some ia \<and> node_id H hp b = Some ib
           \<and> node_id H h1 s
               = Some (H [HClass (BinaryOperator Addition), HStr ''+'', HInt ia, HInt ib])"
proof -
  have run': "binary_operator Addition hp a (Ref b) = (Inr s, h1)"
    using run by (simp add: Symbol_add_def)
  note S = binary_operator_spec [OF wf a b run']
  have h1: "h1 = combined hp Addition a b" and s: "s = length (nodes hp)"
    using S(3) by (auto split: if_splits)
  note C = operator_copy_on_attach [OF wf a b run', of H]
  from C obtain ia ib where ia: "node_id H hp a = Some ia" and ib: "node_id H hp b = Some ib"
    by auto
  have ch: "children h1 s = Some [Suc s, Suc (Suc s)]"
    and i1: "node_id H h1 (Suc s) = Some ia" and i2: "node_id H h1 (Suc (Suc s)) = Some ib"
    using C ia ib by auto
  have sv: "s < length (nodes h1)" using h1 s by (simp add: combined_nodes)
  have nd: "ncls (nodes h1 ! s) = BinaryOperator Addition" "nname (nodes h1 ! s) = ''+''"
    using h1 s by (simp_all add: combined_def nth_append operator_name_def)
  from node_id_unfold [OF S(1) sv, of H] obtain ks ids where
    k: "children h1 s = Some ks" "those (map (node_id H h1) ks) = Some ids"
    "node_id H h1 s = Some (H (HClass (ncls (nodes h1 ! s)) # HStr (nname (nodes h1 ! s)) # map HInt ids))"
    by blast
  have "ks = [Suc s, Suc (Suc s)]" using k(1) ch by simp
  then have "ids = [ia, ib]" using k(2) i1 i2 by simp
  then show ?thesis using k(3) nd ia ib by simp
qed

text \<open>
  The tuples that are hashed for \<^verbatim>\<open>(a + b).id\<close> and \<^verbatim>\<open>(b + a).id\<close> differ when the ids of
  \<open>a\<close> and \<open>b\<close> differ. Whether their hashes differ is a property of the hash: they do
  for an injective \<open>H\<close>, and they do not for one that adds up its entries.
\<close>

lemma swapped_sums_differ_for_injective_hash:
  assumes inj: "inj H"
    and wf: "wf_heap hp" and a: "a < length (nodes hp)" and b: "b < length (nodes hp)"
    and r1: "Symbol_add hp a (Ref b) = (Inr s, h1)"
    and r2: "Symbol_add h1 b (Ref a) = (Inr t, h2)"
    and ne: "node_id H hp a \<noteq> node_id H hp b"
  shows "node_id H h2 s \<noteq> node_id H h2 t"
proof -
  have run1: "binary_operator Addition hp a (Ref b) = (Inr s, h1)"
    using r1 by (simp add: Symbol_add_def)
  note S1 = binary_operator_spec [OF wf a b run1]
  have a1: "a < length (nodes h1)" and b1: "b < length (nodes h1)"
    using a b extendsD(1) [OF S1(2)] by simp_all
  have run2: "binary_operator Addition h1 b (Ref a) = (Inr t, h2)"
    using r2 by (simp add: Symbol_add_def)
  note S2 = binary_operator_spec [OF S1(1) b1 a1 run2]
  have sv: "s < length (nodes h1)"
    using S1(3) by (auto split: if_splits simp: combined_nodes)
  from sum_id [OF wf a b r1, of H] obtain ia ib where
    ia: "node_id H hp a = Some ia" and ib: "node_id H hp b = Some ib"
    and ids: "node_id H h1 s = Some (H [HClass (BinaryOperator Addition), HStr ''+'', HInt ia, HInt ib])"
    by blast
  have e: "node_id H h1 a = node_id H hp a" "node_id H h1 b = node_id H hp b"
    "node_id H h2 s = node_id H h1 s"
    using node_shape_extends [OF wf S1(1) S1(2)] node_shape_extends [OF S1(1) S2(1) S2(2)] a b sv
    by (simp_all add: node_id_by_shape)
  from sum_id [OF S1(1) b1 a1 r2, of H] e ia ib
  have it: "node_id H h2 t = Some (H [HClass (BinaryOperator Addition), HStr ''+'', HInt ib, HInt ia])"
    by simp
  have "ia \<noteq> ib" using ne ia ib by simp
  then have "H [HClass (BinaryOperator Addition), HStr ''+'', HInt ia, HInt ib]
           \<noteq> H [HClass (BinaryOperator Addition), HStr ''+'', HInt ib, HInt ia]"
    using inj by (auto dest: injD)
  then show ?thesis using e(3) ids it by simp
qed

lemma swapped_sums_collide_for_additive_hash:
  "fst (Symbol_add heap_a_bb 0 (Ref 1)) = Inr 2
   \<and> fst (Symbol_add (snd (Symbol_add heap_a_bb 0 (Ref 1))) 1 (Ref 0)) = Inr 5
   \<and> node_id (\<lambda>xs. sum_list (map entry_sum xs)) heap_both_sums 0 = Some 1
   \<and> node_id (\<lambda>xs. sum_list (map entry_sum xs)) heap_both_sums 1 = Some 2
   \<and> node_id (\<lambda>xs. sum_list (map entry_sum xs)) heap_both_sums 2 = Some 4
   \<and> node_id (\<lambda>xs. sum_list (map entry_sum xs)) heap_both_sums 5 = Some 4"
  by code_simp

subsection \<open>The operators over \<^verbatim>\<open>anytree\<close> without its assertions\<close>

text \<open>
  The constructor and the operators over a setter are those of the model for the setter
  \<^const>\<open>set_parent\<close>.
\<close>

lemma attach_children_with_set_parent:
  "attach_children_with set_parent hp self cs = attach_children hp self cs"
  by (induction cs arbitrary: hp) (auto split: prod.splits sum.splits)

lemma Symbol_init_with_set_parent: "Symbol_init_with set_parent = Symbol_init"
  by (intro ext)
     (simp add: Symbol_init_with_def Symbol_init_def attach_children_with_set_parent Let_def
        split: option.splits)

lemma binary_operator_with_set_parent: "binary_operator_with set_parent = binary_operator"
  by (intro ext)
     (simp add: binary_operator_with_def binary_operator_def BinaryOperator_new_with_def
        BinaryOperator_new_def Symbol_init_with_set_parent split: pyvalue.splits)

lemma operators_with_set_parent:
  "Symbol_add_with set_parent = Symbol_add"
  "Symbol_sub_with set_parent = Symbol_sub"
  "Symbol_mul_with set_parent = Symbol_mul"
  "Symbol_truediv_with set_parent = Symbol_truediv"
  by (intro ext,
      simp add: Symbol_add_with_def Symbol_add_def Symbol_sub_with_def Symbol_sub_def
        Symbol_mul_with_def Symbol_mul_def Symbol_truediv_with_def Symbol_truediv_def
        binary_operator_with_set_parent)+

lemma refs_validD:
  assumes "refs_valid hp" "a < length (nodes hp)"
  shows "nparent (nodes hp ! a) = Some p \<Longrightarrow> p < length (nodes hp)"
    and "nchildren (nodes hp ! a) = Some l \<Longrightarrow> l < length (lists hp)"
  using assms by (auto simp: refs_valid_def list_all_length split: option.splits)

lemma refs_validI:
  assumes "\<And>a p. a < length (nodes hp) \<Longrightarrow> nparent (nodes hp ! a) = Some p \<Longrightarrow> p < length (nodes hp)"
    and "\<And>a l. a < length (nodes hp) \<Longrightarrow> nchildren (nodes hp ! a) = Some l \<Longrightarrow> l < length (lists hp)"
  shows "refs_valid hp"
  using assms by (auto simp: refs_valid_def list_all_length split: option.splits)

lemma wf_refs_valid: "wf_heap hp \<Longrightarrow> refs_valid hp"
  by (rule refs_validI) (blast dest: wf_heapD(4) wf_heapD(2))+

lemma refs_valid_initial: "refs_valid initial_heap"
  by (simp add: refs_valid_def initial_heap_def)

lemma constructingD:
  assumes "constructing hp N"
  shows "refs_valid hp" and "N < length (nodes hp)" and "nparent (nodes hp ! N) = None"
    and "a < N \<Longrightarrow> nparent (nodes hp ! a) = Some p \<Longrightarrow> p < N"
  using assms unfolding constructing_def by blast+

lemma children_valid:
  assumes v: "refs_valid hp" and p: "p < length (nodes hp)"
  shows "children hp p =
     Some (case nchildren (nodes hp ! p) of None \<Rightarrow> [] | Some l \<Rightarrow> lists hp ! l)"
  using refs_validD(2) [OF v p] p
  by (auto simp: children_def node_at_def list_at_def split: option.splits)

lemma children_list_valid:
  assumes v: "refs_valid hp" and p: "p < length (nodes hp)"
  obtains l hp1 where "children_list hp p = Some (l, hp1)"
    and "refs_valid hp1" and "length (nodes hp1) = length (nodes hp)"
    and "l < length (lists hp1)" and "nchildren (nodes hp1 ! p) = Some l"
    and "\<And>k. k < length (nodes hp) \<Longrightarrow> nparent (nodes hp1 ! k) = nparent (nodes hp ! k)"
    and "\<And>k. k < length (nodes hp) \<Longrightarrow> ncls (nodes hp1 ! k) = ncls (nodes hp ! k)"
    and "\<And>k. k < length (nodes hp) \<Longrightarrow> nname (nodes hp1 ! k) = nname (nodes hp ! k)"
    and "\<And>k. k < length (nodes hp) \<Longrightarrow> children hp1 k = children hp k"
proof (cases "nchildren (nodes hp ! p)")
  case (Some l)
  have "children_list hp p = Some (l, hp)"
    using p Some by (simp add: children_list_def node_at_def)
  then show ?thesis using that [of l hp] v refs_validD(2) [OF v p Some] Some by simp
next
  case None
  let ?l = "length (lists hp)"
  let ?h = "hp\<lparr>nodes := (nodes hp)[p := (nodes hp ! p)\<lparr>nchildren := Some ?l\<rparr>],
               lists := lists hp @ [[]]\<rparr>"
  have c: "children_list hp p = Some (?l, ?h)"
    using p None by (simp add: children_list_def node_at_def)
  have par: "nparent (nodes ?h ! k) = nparent (nodes hp ! k)" if "k < length (nodes hp)" for k
    using that p by (simp add: nth_list_update)
  have ch: "nchildren (nodes ?h ! k) = (if k = p then Some ?l else nchildren (nodes hp ! k))"
    if "k < length (nodes hp)" for k
    using that p by (simp add: nth_list_update)
  have v1: "refs_valid ?h"
  proof (rule refs_validI)
    fix a q assume "a < length (nodes ?h)" "nparent (nodes ?h ! a) = Some q"
    then show "q < length (nodes ?h)" using refs_validD(1) [OF v, of a q] par [of a] by simp
  next
    fix a l assume "a < length (nodes ?h)" "nchildren (nodes ?h ! a) = Some l"
    then show "l < length (lists ?h)" using refs_validD(2) [OF v, of a l] ch [of a]
      by (auto split: if_splits)
  qed
  have k: "children ?h k = children hp k" if "k < length (nodes hp)" for k
  proof -
    have "children ?h k = Some (case nchildren (nodes ?h ! k) of None \<Rightarrow> [] | Some l \<Rightarrow> lists ?h ! l)"
      by (rule children_valid [OF v1]) (use that in simp)
    moreover have "children hp k = Some (case nchildren (nodes hp ! k) of None \<Rightarrow> [] | Some l \<Rightarrow> lists hp ! l)"
      by (rule children_valid [OF v that])
    ultimately show ?thesis
      using ch [OF that] None refs_validD(2) [OF v that]
      by (auto simp: nth_append split: option.splits)
  qed
  show ?thesis
  proof (rule that [of ?l ?h])
    show "children_list hp p = Some (?l, ?h)" by (rule c)
    show "refs_valid ?h" by (rule v1)
    show "nchildren (nodes ?h ! p) = Some ?l" using ch [OF p] by simp
    show "\<And>k. k < length (nodes hp) \<Longrightarrow> children ?h k = children hp k" by (rule k)
    show "\<And>k. k < length (nodes hp) \<Longrightarrow> nparent (nodes ?h ! k) = nparent (nodes hp ! k)" by (rule par)
  qed (use p in \<open>simp_all add: nth_list_update\<close>)
qed

lemma detach_unchecked_spec:
  assumes v: "refs_valid hp" and a: "a < length (nodes hp)"
  obtains hp' where "detach_unchecked hp a (nparent (nodes hp ! a)) = (Inr (), hp')"
    and "refs_valid hp'" and "length (nodes hp') = length (nodes hp)"
    and "nparent (nodes hp' ! a) = None"
    and "\<And>k. k < length (nodes hp) \<Longrightarrow> k \<noteq> a \<Longrightarrow> nparent (nodes hp' ! k) = nparent (nodes hp ! k)"
    and "\<And>k. k < length (nodes hp) \<Longrightarrow> ncls (nodes hp' ! k) = ncls (nodes hp ! k)"
    and "\<And>k. k < length (nodes hp) \<Longrightarrow> nname (nodes hp' ! k) = nname (nodes hp ! k)"
    and "\<And>k. k < length (nodes hp) \<Longrightarrow> nparent (nodes hp ! a) \<noteq> Some k \<Longrightarrow> children hp' k = children hp k"
proof (cases "nparent (nodes hp ! a)")
  case None
  show ?thesis by (rule that [of hp]) (simp_all add: None detach_unchecked_def v)
next
  case (Some p)
  note T = that
  have p: "p < length (nodes hp)" by (rule refs_validD(1) [OF v a Some])
  obtain l h1 where c: "children_list hp p = Some (l, h1)"
    and v1: "refs_valid h1" and n1: "length (nodes h1) = length (nodes hp)"
    and l: "l < length (lists h1)" and pl: "nchildren (nodes h1 ! p) = Some l"
    and par1: "\<And>k. k < length (nodes hp) \<Longrightarrow> nparent (nodes h1 ! k) = nparent (nodes hp ! k)"
    and cls1: "\<And>k. k < length (nodes hp) \<Longrightarrow> ncls (nodes h1 ! k) = ncls (nodes hp ! k)"
    and nam1: "\<And>k. k < length (nodes hp) \<Longrightarrow> nname (nodes h1 ! k) = nname (nodes hp ! k)"
    and ch1: "\<And>k. k < length (nodes hp) \<Longrightarrow> children h1 k = children hp k"
    by (rule children_list_valid [OF v p]) (rule that)
  let ?ns = "(nodes h1)[p := (nodes h1 ! p)\<lparr>nchildren := Some (length (lists h1))\<rparr>]"
  let ?h = "\<lparr>nodes = ?ns[a := (?ns ! a)\<lparr>nparent := None\<rparr>],
             lists = lists h1 @ [filter (\<lambda>k. k \<noteq> a) (lists h1 ! l)]\<rparr>"
  have d: "detach_unchecked hp a (nparent (nodes hp ! a)) = (Inr (), ?h)"
    using c l p a n1 by (simp add: Some detach_unchecked_def list_at_def node_at_def Let_def)
  have par: "nparent (nodes ?h ! k) = (if k = a then None else nparent (nodes hp ! k))"
    if "k < length (nodes hp)" for k
    using that n1 par1 [OF that] p a by (simp add: nth_list_update)
  have ch: "nchildren (nodes ?h ! k) = (if k = p then Some (length (lists h1)) else nchildren (nodes h1 ! k))"
    if "k < length (nodes hp)" for k
    using that n1 p a by (simp add: nth_list_update)
  have v2: "refs_valid ?h"
  proof (rule refs_validI)
    fix k q assume "k < length (nodes ?h)" "nparent (nodes ?h ! k) = Some q"
    then show "q < length (nodes ?h)"
      using refs_validD(1) [OF v, of k q] par [of k] n1 by (auto split: if_splits)
  next
    fix k m assume "k < length (nodes ?h)" "nchildren (nodes ?h ! k) = Some m"
    then show "m < length (lists ?h)"
      using refs_validD(2) [OF v1, of k m] ch [of k] n1 by (auto split: if_splits)
  qed
  have k: "children ?h k = children hp k" if k: "k < length (nodes hp)" and kp: "k \<noteq> p" for k
  proof -
    have k1: "k < length (nodes h1)" using k n1 by simp
    have "children ?h k = Some (case nchildren (nodes ?h ! k) of None \<Rightarrow> [] | Some l \<Rightarrow> lists ?h ! l)"
      by (rule children_valid [OF v2]) (use k n1 in simp)
    moreover have "children h1 k = Some (case nchildren (nodes h1 ! k) of None \<Rightarrow> [] | Some l \<Rightarrow> lists h1 ! l)"
      by (rule children_valid [OF v1 k1])
    ultimately have "children ?h k = children h1 k"
      using ch [OF k] kp refs_validD(2) [OF v1 k1]
      by (auto simp: nth_append split: option.splits)
    then show ?thesis using ch1 [OF k] by simp
  qed
  show ?thesis
  proof (rule T [of ?h])
    show "detach_unchecked hp a (nparent (nodes hp ! a)) = (Inr (), ?h)" by (rule d)
    show "refs_valid ?h" by (rule v2)
    show "length (nodes ?h) = length (nodes hp)" using n1 by simp
    show "nparent (nodes ?h ! a) = None" using par [OF a] by simp
    show "\<And>k. k < length (nodes hp) \<Longrightarrow> k \<noteq> a \<Longrightarrow> nparent (nodes ?h ! k) = nparent (nodes hp ! k)"
      by (simp only: par if_False)
    show "\<And>k. k < length (nodes hp) \<Longrightarrow> ncls (nodes ?h ! k) = ncls (nodes hp ! k)"
      using cls1 n1 p a by (simp add: nth_list_update)
    show "\<And>k. k < length (nodes hp) \<Longrightarrow> nname (nodes ?h ! k) = nname (nodes hp ! k)"
      using nam1 n1 p a by (simp add: nth_list_update)
    show "\<And>k. k < length (nodes hp) \<Longrightarrow> nparent (nodes hp ! a) \<noteq> Some k \<Longrightarrow> children ?h k = children hp k"
      using k Some by simp
  qed
qed

lemma attach_unchecked_spec:
  assumes v: "refs_valid hp" and a: "a < length (nodes hp)" and p: "p < length (nodes hp)"
  obtains hp' ks where "attach_unchecked hp a (Some p) = (Inr (), hp')"
    and "refs_valid hp'" and "length (nodes hp') = length (nodes hp)"
    and "nparent (nodes hp' ! a) = Some p"
    and "\<And>k. k < length (nodes hp) \<Longrightarrow> k \<noteq> a \<Longrightarrow> nparent (nodes hp' ! k) = nparent (nodes hp ! k)"
    and "\<And>k. k < length (nodes hp) \<Longrightarrow> ncls (nodes hp' ! k) = ncls (nodes hp ! k)"
    and "\<And>k. k < length (nodes hp) \<Longrightarrow> nname (nodes hp' ! k) = nname (nodes hp ! k)"
    and "children hp p = Some ks" and "children hp' p = Some (ks @ [a])"
proof -
  note T = that
  obtain l h1 where c: "children_list hp p = Some (l, h1)"
    and v1: "refs_valid h1" and n1: "length (nodes h1) = length (nodes hp)"
    and l: "l < length (lists h1)" and pl: "nchildren (nodes h1 ! p) = Some l"
    and par1: "\<And>k. k < length (nodes hp) \<Longrightarrow> nparent (nodes h1 ! k) = nparent (nodes hp ! k)"
    and cls1: "\<And>k. k < length (nodes hp) \<Longrightarrow> ncls (nodes h1 ! k) = ncls (nodes hp ! k)"
    and nam1: "\<And>k. k < length (nodes hp) \<Longrightarrow> nname (nodes h1 ! k) = nname (nodes hp ! k)"
    and ch1: "\<And>k. k < length (nodes hp) \<Longrightarrow> children h1 k = children hp k"
    by (rule children_list_valid [OF v p]) (rule that)
  let ?h = "h1\<lparr>nodes := (nodes h1)[a := (nodes h1 ! a)\<lparr>nparent := Some p\<rparr>],
               lists := (lists h1)[l := lists h1 ! l @ [a]]\<rparr>"
  have d: "attach_unchecked hp a (Some p) = (Inr (), ?h)"
    using c l a n1 by (simp add: attach_unchecked_def list_at_def node_at_def)
  have par: "nparent (nodes ?h ! k) = (if k = a then Some p else nparent (nodes hp ! k))"
    if "k < length (nodes hp)" for k
    using that n1 par1 [OF that] a by (simp add: nth_list_update)
  have ch: "nchildren (nodes ?h ! k) = nchildren (nodes h1 ! k)" if "k < length (nodes hp)" for k
    using that n1 a by (simp add: nth_list_update)
  have v2: "refs_valid ?h"
  proof (rule refs_validI)
    fix k q assume "k < length (nodes ?h)" "nparent (nodes ?h ! k) = Some q"
    then show "q < length (nodes ?h)"
      using refs_validD(1) [OF v, of k q] par [of k] n1 p by (auto split: if_splits)
  next
    fix k m assume "k < length (nodes ?h)" "nchildren (nodes ?h ! k) = Some m"
    then show "m < length (lists ?h)"
      using refs_validD(2) [OF v1, of k m] ch [of k] n1 by simp
  qed
  have p1: "p < length (nodes h1)" using p n1 by simp
  have k1: "children h1 p = Some (lists h1 ! l)"
    using children_valid [OF v1 p1] pl by simp
  have k2: "children ?h p = Some (lists h1 ! l @ [a])"
    using children_valid [OF v2, of p] p1 ch [OF p] pl l by simp
  show ?thesis
  proof (rule T [of ?h "lists h1 ! l"])
    show "attach_unchecked hp a (Some p) = (Inr (), ?h)" by (rule d)
    show "refs_valid ?h" by (rule v2)
    show "length (nodes ?h) = length (nodes hp)" using n1 by simp
    show "nparent (nodes ?h ! a) = Some p" using par [OF a] by simp
    show "\<And>k. k < length (nodes hp) \<Longrightarrow> k \<noteq> a \<Longrightarrow> nparent (nodes ?h ! k) = nparent (nodes hp ! k)"
      by (simp only: par if_False)
    show "\<And>k. k < length (nodes hp) \<Longrightarrow> ncls (nodes ?h ! k) = ncls (nodes hp ! k)"
      using cls1 n1 p a by (simp add: nth_list_update)
    show "\<And>k. k < length (nodes hp) \<Longrightarrow> nname (nodes ?h ! k) = nname (nodes hp ! k)"
      using nam1 n1 p a by (simp add: nth_list_update)
    show "children hp p = Some (lists h1 ! l)" using k1 ch1 [OF p] by simp
    show "children ?h p = Some (lists h1 ! l @ [a])" by (rule k2)
  qed
qed

lemma set_parent_unchecked_spec:
  assumes v: "refs_valid hp" and a: "a < length (nodes hp)"
    and N: "N < length (nodes hp)" "nparent (nodes hp ! N) = None"
    and aN: "a \<noteq> N" "nparent (nodes hp ! a) \<noteq> Some N"
  obtains hp' ks where "set_parent_unchecked hp a (Some N) = (Inr (), hp')"
    and "refs_valid hp'" and "length (nodes hp') = length (nodes hp)"
    and "nparent (nodes hp' ! a) = Some N"
    and "\<And>k. k < length (nodes hp) \<Longrightarrow> k \<noteq> a \<Longrightarrow> nparent (nodes hp' ! k) = nparent (nodes hp ! k)"
    and "\<And>k. k < length (nodes hp) \<Longrightarrow> ncls (nodes hp' ! k) = ncls (nodes hp ! k)"
    and "\<And>k. k < length (nodes hp) \<Longrightarrow> nname (nodes hp' ! k) = nname (nodes hp ! k)"
    and "children hp N = Some ks" and "children hp' N = Some (ks @ [a])"
proof -
  note T = that
  have cl: "check_loop hp a (Some N) = None" by (rule check_loop_root [OF N aN(1)])
  obtain h1 where d: "detach_unchecked hp a (nparent (nodes hp ! a)) = (Inr (), h1)"
    and v1: "refs_valid h1" and n1: "length (nodes h1) = length (nodes hp)"
    and par1: "\<And>k. k < length (nodes hp) \<Longrightarrow> k \<noteq> a \<Longrightarrow> nparent (nodes h1 ! k) = nparent (nodes hp ! k)"
    and cls1: "\<And>k. k < length (nodes hp) \<Longrightarrow> ncls (nodes h1 ! k) = ncls (nodes hp ! k)"
    and nam1: "\<And>k. k < length (nodes hp) \<Longrightarrow> nname (nodes h1 ! k) = nname (nodes hp ! k)"
    and ch1: "\<And>k. k < length (nodes hp) \<Longrightarrow> nparent (nodes hp ! a) \<noteq> Some k \<Longrightarrow> children h1 k = children hp k"
    by (rule detach_unchecked_spec [OF v a]) (rule that)
  have a1: "a < length (nodes h1)" and N1: "N < length (nodes h1)" using a N(1) n1 by simp_all
  obtain h2 ks where t: "attach_unchecked h1 a (Some N) = (Inr (), h2)"
    and v2: "refs_valid h2" and n2: "length (nodes h2) = length (nodes h1)"
    and pa: "nparent (nodes h2 ! a) = Some N"
    and par2: "\<And>k. k < length (nodes h1) \<Longrightarrow> k \<noteq> a \<Longrightarrow> nparent (nodes h2 ! k) = nparent (nodes h1 ! k)"
    and cls2: "\<And>k. k < length (nodes h1) \<Longrightarrow> ncls (nodes h2 ! k) = ncls (nodes h1 ! k)"
    and nam2: "\<And>k. k < length (nodes h1) \<Longrightarrow> nname (nodes h2 ! k) = nname (nodes h1 ! k)"
    and k1: "children h1 N = Some ks" and k2: "children h2 N = Some (ks @ [a])"
    by (rule attach_unchecked_spec [OF v1 a1 N1]) (rule that)
  have s: "set_parent_unchecked hp a (Some N) = (Inr (), h2)"
    using a aN(2) cl d t by (simp add: set_parent_unchecked_def node_at_def)
  show ?thesis
  proof (rule T [of h2 ks])
    show "set_parent_unchecked hp a (Some N) = (Inr (), h2)" by (rule s)
    show "refs_valid h2" by (rule v2)
    show "length (nodes h2) = length (nodes hp)" using n1 n2 by simp
    show "nparent (nodes h2 ! a) = Some N" by (rule pa)
    show "\<And>k. k < length (nodes hp) \<Longrightarrow> k \<noteq> a \<Longrightarrow> nparent (nodes h2 ! k) = nparent (nodes hp ! k)"
      using par1 par2 n1 by simp
    show "\<And>k. k < length (nodes hp) \<Longrightarrow> ncls (nodes h2 ! k) = ncls (nodes hp ! k)"
      using cls1 cls2 n1 by simp
    show "\<And>k. k < length (nodes hp) \<Longrightarrow> nname (nodes h2 ! k) = nname (nodes hp ! k)"
      using nam1 nam2 n1 by simp
    show "children hp N = Some ks" using k1 ch1 [OF N(1) aN(2)] by simp
    show "children h2 N = Some (ks @ [a])" by (rule k2)
  qed
qed

lemma round_unchecked:
  assumes c: "constructing hp N" and x: "x < N"
  obtains hp' ks where
    "attach_children_with set_parent_unchecked hp N (x # rest)
       = attach_children_with set_parent_unchecked hp' N rest"
    and "constructing hp' N" and "length (nodes hp') = Suc (length (nodes hp))"
    and "children hp N = Some ks" and "children hp' N = Some (ks @ [length (nodes hp)])"
    and "\<And>k. k < length (nodes hp) \<Longrightarrow> nparent (nodes hp' ! k) = nparent (nodes hp ! k)"
    and "\<And>k. k < length (nodes hp) \<Longrightarrow> ncls (nodes hp' ! k) = ncls (nodes hp ! k)"
    and "\<And>k. k < length (nodes hp) \<Longrightarrow> nname (nodes hp' ! k) = nname (nodes hp ! k)"
    and "nparent (nodes hp' ! length (nodes hp)) = Some N"
    and "ncls (nodes hp' ! length (nodes hp)) = ncls (nodes hp ! x)"
    and "nname (nodes hp' ! length (nodes hp)) = nname (nodes hp ! x)"
proof -
  note T = that
  note v = constructingD(1) [OF c] and N = constructingD(2,3) [OF c]
  let ?c = "length (nodes hp)"
  let ?h = "hp\<lparr>nodes := nodes hp @ [nodes hp ! x]\<rparr>"
  have xl: "x < length (nodes hp)" using x N(1) by simp
  have cp: "copy_copy hp x = (Inr ?c, ?h)" by (rule copy_copy_ok [OF xl])
  have v0: "refs_valid ?h"
  proof (rule refs_validI)
    fix k q assume "k < length (nodes ?h)" "nparent (nodes ?h ! k) = Some q"
    then show "q < length (nodes ?h)"
      using refs_validD(1) [OF v, of k q] refs_validD(1) [OF v xl, of q]
      by (auto simp: nth_append less_Suc_eq split: if_splits)
  next
    fix k m assume "k < length (nodes ?h)" "nchildren (nodes ?h ! k) = Some m"
    then show "m < length (lists ?h)"
      using refs_validD(2) [OF v, of k m] refs_validD(2) [OF v xl, of m]
      by (auto simp: nth_append less_Suc_eq split: if_splits)
  qed
  have c0: "?c < length (nodes ?h)" and N0: "N < length (nodes ?h)"
    and Np: "nparent (nodes ?h ! N) = None" and cN: "?c \<noteq> N"
    using N by (simp_all add: nth_append)
  have cpar: "nparent (nodes ?h ! ?c) \<noteq> Some N"
    using constructingD(4) [OF c x, of N] by auto
  obtain h2 ks where s: "set_parent_unchecked ?h ?c (Some N) = (Inr (), h2)"
    and v2: "refs_valid h2" and n2: "length (nodes h2) = length (nodes ?h)"
    and pa: "nparent (nodes h2 ! ?c) = Some N"
    and par2: "\<And>k. k < length (nodes ?h) \<Longrightarrow> k \<noteq> ?c \<Longrightarrow> nparent (nodes h2 ! k) = nparent (nodes ?h ! k)"
    and cls2: "\<And>k. k < length (nodes ?h) \<Longrightarrow> ncls (nodes h2 ! k) = ncls (nodes ?h ! k)"
    and nam2: "\<And>k. k < length (nodes ?h) \<Longrightarrow> nname (nodes h2 ! k) = nname (nodes ?h ! k)"
    and k1: "children ?h N = Some ks" and k2: "children h2 N = Some (ks @ [?c])"
    by (rule set_parent_unchecked_spec [OF v0 c0 N0 Np cN cpar]) (rule that)
  have old: "nparent (nodes h2 ! k) = nparent (nodes hp ! k)" if "k < length (nodes hp)" for k
    using par2 [of k] that by (simp add: nth_append)
  have kh: "children ?h N = children hp N"
    using N(1) by (simp add: children_def node_at_def list_at_def nth_append split: option.splits)
  show ?thesis
  proof (rule T [of h2 ks])
    show "attach_children_with set_parent_unchecked hp N (x # rest)
            = attach_children_with set_parent_unchecked h2 N rest"
      using cp s by simp
    show "constructing h2 N"
      unfolding constructing_def
    proof (intro conjI allI impI)
      show "refs_valid h2" by (rule v2)
      show "N < length (nodes h2)" using N0 n2 by simp
      show "nparent (nodes h2 ! N) = None" using old [OF N(1)] N(2) by simp
      fix a p assume "a < N" "nparent (nodes h2 ! a) = Some p"
      then show "p < N" using old [of a] N(1) constructingD(4) [OF c, of a p] by simp
    qed
    show "length (nodes h2) = Suc (length (nodes hp))" using n2 by simp
    show "children hp N = Some ks" using k1 kh by simp
    show "children h2 N = Some (ks @ [?c])" by (rule k2)
    show "\<And>k. k < length (nodes hp) \<Longrightarrow> nparent (nodes h2 ! k) = nparent (nodes hp ! k)" by (rule old)
    show "\<And>k. k < length (nodes hp) \<Longrightarrow> ncls (nodes h2 ! k) = ncls (nodes hp ! k)"
      using cls2 by (simp add: nth_append)
    show "\<And>k. k < length (nodes hp) \<Longrightarrow> nname (nodes h2 ! k) = nname (nodes hp ! k)"
      using nam2 by (simp add: nth_append)
    show "nparent (nodes h2 ! ?c) = Some N" by (rule pa)
    show "ncls (nodes h2 ! ?c) = ncls (nodes hp ! x)" using cls2 [OF c0] by simp
    show "nname (nodes h2 ! ?c) = nname (nodes hp ! x)" using nam2 [OF c0] by simp
  qed
qed

lemma BinaryOperator_new_unchecked:
  assumes v: "refs_valid hp" and a: "a < length (nodes hp)" and b: "b < length (nodes hp)"
  shows "\<exists>hp'. BinaryOperator_new_with set_parent_unchecked hp op a b = (Inr (length (nodes hp)), hp')
      \<and> refs_valid hp'
      \<and> length (nodes hp') = length (nodes hp) + 3
      \<and> ncls (nodes hp' ! length (nodes hp)) = BinaryOperator op
      \<and> nname (nodes hp' ! length (nodes hp)) = operator_name op
      \<and> nparent (nodes hp' ! length (nodes hp)) = None
      \<and> children hp' (length (nodes hp))
          = Some [Suc (length (nodes hp)), Suc (Suc (length (nodes hp)))]
      \<and> ncls (nodes hp' ! Suc (length (nodes hp))) = ncls (nodes hp ! a)
      \<and> nname (nodes hp' ! Suc (length (nodes hp))) = nname (nodes hp ! a)
      \<and> nparent (nodes hp' ! Suc (length (nodes hp))) = Some (length (nodes hp))
      \<and> ncls (nodes hp' ! Suc (Suc (length (nodes hp)))) = ncls (nodes hp ! b)
      \<and> nname (nodes hp' ! Suc (Suc (length (nodes hp)))) = nname (nodes hp ! b)
      \<and> nparent (nodes hp' ! Suc (Suc (length (nodes hp)))) = Some (length (nodes hp))
      \<and> (\<forall>k<length (nodes hp). ncls (nodes hp' ! k) = ncls (nodes hp ! k)
                              \<and> nname (nodes hp' ! k) = nname (nodes hp ! k))"
proof -
  let ?N = "length (nodes hp)"
  let ?new = "\<lparr>ncls = BinaryOperator op, nname = operator_name op, nparent = None, nchildren = None\<rparr>"
  let ?hz = "hp\<lparr>lists := lists hp @ [[a, b]], nodes := nodes hp @ [?new]\<rparr>"
  let ?sp = set_parent_unchecked
  have start: "BinaryOperator_new_with ?sp hp op a b =
      (case attach_children_with ?sp ?hz ?N [a, b] of
         (Inl e, h) \<Rightarrow> (Inl e, h) | (Inr u, h) \<Rightarrow> (Inr ?N, h))"
    by (simp add: BinaryOperator_new_with_def Symbol_init_with_def list_at_def Let_def del: attach_children_with.simps)
  have vz: "refs_valid ?hz"
  proof (rule refs_validI)
    fix k q assume "k < length (nodes ?hz)" "nparent (nodes ?hz ! k) = Some q"
    then show "q < length (nodes ?hz)"
      using refs_validD(1) [OF v, of k q] by (auto simp: nth_append less_Suc_eq split: if_splits)
  next
    fix k m assume "k < length (nodes ?hz)" "nchildren (nodes ?hz ! k) = Some m"
    then show "m < length (lists ?hz)"
      using refs_validD(2) [OF v, of k m] by (auto simp: nth_append less_Suc_eq split: if_splits)
  qed
  have cz: "constructing ?hz ?N"
    unfolding constructing_def
  proof (intro conjI allI impI)
    show "refs_valid ?hz" by (rule vz)
    show "?N < length (nodes ?hz)" by simp
    show "nparent (nodes ?hz ! ?N) = None" by simp
    fix k p assume "k < ?N" "nparent (nodes ?hz ! k) = Some p"
    then show "p < ?N" using refs_validD(1) [OF v, of k p] by (simp add: nth_append)
  qed
  have kz: "children ?hz ?N = Some []" by (simp add: children_def node_at_def)
  have nz: "length (nodes ?hz) = Suc ?N" by simp
  obtain h1 ks1 where e1: "attach_children_with ?sp ?hz ?N [a, b] = attach_children_with ?sp h1 ?N [b]"
    and c1: "constructing h1 ?N" and n1: "length (nodes h1) = Suc (length (nodes ?hz))"
    and k1: "children ?hz ?N = Some ks1" "children h1 ?N = Some (ks1 @ [length (nodes ?hz)])"
    and par1: "\<And>k. k < length (nodes ?hz) \<Longrightarrow> nparent (nodes h1 ! k) = nparent (nodes ?hz ! k)"
    and cls1: "\<And>k. k < length (nodes ?hz) \<Longrightarrow> ncls (nodes h1 ! k) = ncls (nodes ?hz ! k)"
    and nam1: "\<And>k. k < length (nodes ?hz) \<Longrightarrow> nname (nodes h1 ! k) = nname (nodes ?hz ! k)"
    and new1: "nparent (nodes h1 ! length (nodes ?hz)) = Some ?N"
      "ncls (nodes h1 ! length (nodes ?hz)) = ncls (nodes ?hz ! a)"
      "nname (nodes h1 ! length (nodes ?hz)) = nname (nodes ?hz ! a)"
    by (rule round_unchecked [OF cz a, of "[b]"]) (rule that)
  obtain h2 ks2 where e2: "attach_children_with ?sp h1 ?N [b] = attach_children_with ?sp h2 ?N []"
    and c2: "constructing h2 ?N" and n2: "length (nodes h2) = Suc (length (nodes h1))"
    and k2: "children h1 ?N = Some ks2" "children h2 ?N = Some (ks2 @ [length (nodes h1)])"
    and par2: "\<And>k. k < length (nodes h1) \<Longrightarrow> nparent (nodes h2 ! k) = nparent (nodes h1 ! k)"
    and cls2: "\<And>k. k < length (nodes h1) \<Longrightarrow> ncls (nodes h2 ! k) = ncls (nodes h1 ! k)"
    and nam2: "\<And>k. k < length (nodes h1) \<Longrightarrow> nname (nodes h2 ! k) = nname (nodes h1 ! k)"
    and new2: "nparent (nodes h2 ! length (nodes h1)) = Some ?N"
      "ncls (nodes h2 ! length (nodes h1)) = ncls (nodes h1 ! b)"
      "nname (nodes h2 ! length (nodes h1)) = nname (nodes h1 ! b)"
    by (rule round_unchecked [OF c1 b, of "[]"]) (rule that)
  have l1: "length (nodes h1) = Suc (Suc ?N)" and l2: "length (nodes h2) = ?N + 3"
    using n1 n2 nz by simp_all
  have r: "BinaryOperator_new_with ?sp hp op a b = (Inr ?N, h2)"
    using start e1 e2 by simp
  have old: "ncls (nodes h2 ! k) = ncls (nodes hp ! k) \<and> nname (nodes h2 ! k) = nname (nodes hp ! k)"
    if "k < ?N" for k
    using that cls1 [of k] cls2 [of k] nam1 [of k] nam2 [of k] l1 by (simp add: nth_append)
  have N2: "ncls (nodes h2 ! ?N) = BinaryOperator op" "nname (nodes h2 ! ?N) = operator_name op"
    using cls1 [of ?N] cls2 [of ?N] nam1 [of ?N] nam2 [of ?N] l1 by simp_all
  have A2: "ncls (nodes h2 ! Suc ?N) = ncls (nodes hp ! a)"
    "nname (nodes h2 ! Suc ?N) = nname (nodes hp ! a)"
    "nparent (nodes h2 ! Suc ?N) = Some ?N"
    using cls2 [of "Suc ?N"] nam2 [of "Suc ?N"] par2 [of "Suc ?N"] new1 l1 a
    by (simp_all add: nth_append)
  have B2: "ncls (nodes h2 ! Suc (Suc ?N)) = ncls (nodes hp ! b)"
    "nname (nodes h2 ! Suc (Suc ?N)) = nname (nodes hp ! b)"
    "nparent (nodes h2 ! Suc (Suc ?N)) = Some ?N"
    using new2 l1 cls1 [of b] nam1 [of b] b by (simp_all add: nth_append)
  have K2: "children h2 ?N = Some [Suc ?N, Suc (Suc ?N)]"
    using k1 k2 kz l1 by simp
  show ?thesis
    using r constructingD(1,3) [OF c2] l2 N2 A2 B2 K2 old by blast
qed

text \<open>
  For operands without a parent in a well-formed store the releases agree: the
  assertions hold there, and \<^verbatim>\<open>__detach\<close> is not reached.
\<close>

lemma attach_unchecked_attach:
  assumes "\<And>l. l < length (lists hp) \<Longrightarrow> a \<notin> set (lists hp ! l)"
  shows "attach_unchecked hp a v = attach hp a v"
proof (cases v)
  case None
  then show ?thesis by (simp add: attach_unchecked_def attach_def)
next
  case (Some p)
  show ?thesis
  proof (cases "children_list hp p")
    case None
    then show ?thesis using Some by (simp add: attach_unchecked_def attach_def)
  next
    case c: (Some r)
    obtain l h1 where r: "r = (l, h1)" by (cases r)
    have "a \<notin> set pc" if "list_at h1 l = Some pc" for pc
      using c that assms unfolding r
      by (auto simp: children_list_def list_at_def nth_append split: option.splits if_splits)
    then show ?thesis using Some c r
      by (auto simp: attach_unchecked_def attach_def split: option.splits)
  qed
qed

lemma set_parent_unchecked_fresh:
  assumes wf: "wf_heap hp" and nd: "nparent nd = None"
  shows "set_parent_unchecked (hp\<lparr>nodes := nodes hp @ [nd]\<rparr>) (length (nodes hp)) v
       = set_parent (hp\<lparr>nodes := nodes hp @ [nd]\<rparr>) (length (nodes hp)) v"
proof -
  let ?h = "hp\<lparr>nodes := nodes hp @ [nd]\<rparr>"
  have "length (nodes hp) \<notin> set (lists ?h ! l)" if "l < length (lists ?h)" for l
    using wf_heapD(1) [OF wf, of l "length (nodes hp)"] that by auto
  then have "attach_unchecked ?h (length (nodes hp)) v = attach ?h (length (nodes hp)) v"
    by (rule attach_unchecked_attach)
  then show ?thesis using nd
    by (simp add: set_parent_unchecked_def set_parent_def detach_unchecked_def split: option.splits)
qed

lemma attach_children_releases_agree:
  assumes "building l0 hp N" and "\<forall>x\<in>set cs. x < N \<and> nparent (nodes hp ! x) = None"
  shows "attach_children_with set_parent_unchecked hp N cs = attach_children hp N cs"
  using assms
proof (induction cs arbitrary: hp)
  case Nil
  show ?case by simp
next
  case (Cons x rest)
  note b = Cons.prems(1)
  note N = buildingD(2) [OF b] and wf = buildingD(1) [OF b]
  have x: "x < N" "x < length (nodes hp)" "nparent (nodes hp ! x) = None"
    using Cons.prems(2) N by auto
  let ?h = "attached hp N x"
  have b': "building l0 ?h N" using building_attached [OF b x(2)] x(1) by blast
  have old: "nodes ?h ! y = nodes hp ! y" if "y < N" for y
    using attached_node_old [of y hp N x] that N by simp
  have pre: "\<forall>y\<in>set rest. y < N \<and> nparent (nodes ?h ! y) = None"
    using Cons.prems(2) old by simp
  have s: "set_parent_unchecked (hp\<lparr>nodes := nodes hp @ [nodes hp ! x]\<rparr>) (length (nodes hp)) (Some N)
         = (Inr (), ?h)"
    using set_parent_unchecked_fresh [OF wf x(3)] step_ok [OF b x(2,3)] by simp
  have "attach_children_with set_parent_unchecked hp N (x # rest)
      = attach_children_with set_parent_unchecked ?h N rest"
    using copy_copy_ok [OF x(2)] s by simp
  also have "\<dots> = attach_children ?h N rest" by (rule Cons.IH [OF b' pre])
  also have "\<dots> = attach_children hp N (x # rest)"
    by (rule attach_children_step_ok [OF b x(2,3), symmetric])
  finally show ?case .
qed

lemma releases_agree_without_parents:
  assumes wf: "wf_heap hp" and a: "a < length (nodes hp)" and b: "b < length (nodes hp)"
    and p: "parent hp a = None" "parent hp b = None"
  shows "Symbol_add_with set_parent_unchecked hp a (Ref b) = Symbol_add hp a (Ref b)"
    and "Symbol_sub_with set_parent_unchecked hp a (Ref b) = Symbol_sub hp a (Ref b)"
    and "Symbol_mul_with set_parent_unchecked hp a (Ref b) = Symbol_mul hp a (Ref b)"
    and "Symbol_truediv_with set_parent_unchecked hp a (Ref b) = Symbol_truediv hp a (Ref b)"
proof -
  have "BinaryOperator_new_with set_parent_unchecked hp op a b = BinaryOperator_new hp op a b" for op
  proof -
    let ?hl = "hp\<lparr>lists := lists hp @ [[a, b]]\<rparr>"
    let ?new = "\<lparr>ncls = BinaryOperator op, nname = operator_name op, nparent = None, nchildren = None\<rparr>"
    let ?hz = "?hl\<lparr>nodes := nodes ?hl @ [?new]\<rparr>"
    have wl: "wf_heap ?hl" by (rule wf_new_list [OF wf]) (use a b in simp)
    have bz: "building (length (lists ?hl)) ?hz (length (nodes ?hl))" by (rule building_new [OF wl])
    have pre: "\<forall>x\<in>set [a, b]. x < length (nodes ?hl) \<and> nparent (nodes ?hz ! x) = None"
      using a b p by (simp add: nth_append parent_nparent)
    have "attach_children_with set_parent_unchecked ?hz (length (nodes ?hl)) [a, b]
        = attach_children ?hz (length (nodes ?hl)) [a, b]"
      by (rule attach_children_releases_agree [OF bz pre])
    then show ?thesis
      by (simp add: BinaryOperator_new_with_def BinaryOperator_new_def Symbol_init_with_def
            Symbol_init_def Let_def list_at_def
          del: attach_children_with.simps attach_children.simps)
  qed
  then show "Symbol_add_with set_parent_unchecked hp a (Ref b) = Symbol_add hp a (Ref b)"
    and "Symbol_sub_with set_parent_unchecked hp a (Ref b) = Symbol_sub hp a (Ref b)"
    and "Symbol_mul_with set_parent_unchecked hp a (Ref b) = Symbol_mul hp a (Ref b)"
    and "Symbol_truediv_with set_parent_unchecked hp a (Ref b) = Symbol_truediv hp a (Ref b)"
    by (simp_all add: Symbol_add_with_def Symbol_add_def Symbol_sub_with_def Symbol_sub_def
          Symbol_mul_with_def Symbol_mul_def Symbol_truediv_with_def Symbol_truediv_def
          binary_operator_with_def binary_operator_def)
qed

text \<open>
  C4. Over the releases of \<^verbatim>\<open>anytree\<close> that do not evaluate their assertions (2.9.2 and
  later, as they are installed), in a store whose references are valid and for an object
  \<open>self\<close> of it: each of \<^verbatim>\<open>self + other\<close>, \<^verbatim>\<open>self - other\<close>, \<^verbatim>\<open>self * other\<close> and
  \<^verbatim>\<open>self / other\<close> raises \<^verbatim>\<open>NotImplementedError\<close> if and only if \<open>other\<close> is not a
  \<^verbatim>\<open>Symbol\<close>, and then the store is unchanged, so no node has been created. When \<open>other\<close>
  is a \<^verbatim>\<open>Symbol\<close>, whether or not the operands have parents, the operator returns a new
  node of its operator class, named by the operator's symbol and without a parent, whose
  two children are new objects with the class and the name of \<open>self\<close> and of \<open>other\<close>, in
  that order; the references of the new store are valid again. (With the assertions
  evaluated, as in the releases 2.4.3 to 2.7.3, the operators return the same for
  operands without a parent, \<open>releases_agree_without_parents\<close>, and an operand that has
  a parent makes the setter of \<^verbatim>\<open>parent\<close> raise \<^verbatim>\<open>AssertionError\<close>,
  \<open>operand_with_parent_under_assertions\<close>.)
\<close>

theorem operators_raise_exactly_for_non_symbols:
  assumes "refs_valid hp" and "self < length (nodes hp)"
    and "\<forall>b. other = Ref b \<longrightarrow> b < length (nodes hp)"
    and "f = Symbol_add_with set_parent_unchecked \<and> op = Addition
       \<or> f = Symbol_sub_with set_parent_unchecked \<and> op = Subtraction
       \<or> f = Symbol_mul_with set_parent_unchecked \<and> op = Multiplication
       \<or> f = Symbol_truediv_with set_parent_unchecked \<and> op = Division"
  shows "(fst (f hp self other) = Inl (NotImplementedError []) \<longleftrightarrow> \<not> isinstance_Symbol other)
       \<and> (\<not> isinstance_Symbol other \<longrightarrow> f hp self other = (Inl (NotImplementedError []), hp))
       \<and> (isinstance_Symbol other \<longrightarrow>
            (\<exists>hp'. f hp self other = (Inr (length (nodes hp)), hp')
               \<and> refs_valid hp'
               \<and> length (nodes hp') = length (nodes hp) + 3
               \<and> ncls (nodes hp' ! length (nodes hp)) = BinaryOperator op
               \<and> nname (nodes hp' ! length (nodes hp)) = operator_name op
               \<and> parent hp' (length (nodes hp)) = None
               \<and> children hp' (length (nodes hp))
                   = Some [Suc (length (nodes hp)), Suc (Suc (length (nodes hp)))]
               \<and> ncls (nodes hp' ! Suc (length (nodes hp))) = ncls (nodes hp ! self)
               \<and> nname (nodes hp' ! Suc (length (nodes hp))) = nname (nodes hp ! self)
               \<and> parent hp' (Suc (length (nodes hp))) = Some (length (nodes hp))
               \<and> parent hp' (Suc (Suc (length (nodes hp)))) = Some (length (nodes hp))
               \<and> (\<forall>b. other = Ref b \<longrightarrow>
                      ncls (nodes hp' ! Suc (Suc (length (nodes hp)))) = ncls (nodes hp ! b)
                    \<and> nname (nodes hp' ! Suc (Suc (length (nodes hp)))) = nname (nodes hp ! b))
               \<and> (\<forall>k<length (nodes hp). ncls (nodes hp' ! k) = ncls (nodes hp ! k)
                                       \<and> nname (nodes hp' ! k) = nname (nodes hp ! k))))"
proof (cases other)
  case (Ref b)
  have b: "b < length (nodes hp)" using assms(3) Ref by simp
  have f: "f hp self other = BinaryOperator_new_with set_parent_unchecked hp op self b"
    using assms(4) Ref
    by (auto simp: Symbol_add_with_def Symbol_sub_with_def Symbol_mul_with_def
          Symbol_truediv_with_def binary_operator_with_def)
  obtain hp' where r: "BinaryOperator_new_with set_parent_unchecked hp op self b = (Inr (length (nodes hp)), hp')"
    and v: "refs_valid hp'" and n: "length (nodes hp') = length (nodes hp) + 3"
    and rest: "ncls (nodes hp' ! length (nodes hp)) = BinaryOperator op"
      "nname (nodes hp' ! length (nodes hp)) = operator_name op"
      "nparent (nodes hp' ! length (nodes hp)) = None"
      "children hp' (length (nodes hp)) = Some [Suc (length (nodes hp)), Suc (Suc (length (nodes hp)))]"
      "ncls (nodes hp' ! Suc (length (nodes hp))) = ncls (nodes hp ! self)"
      "nname (nodes hp' ! Suc (length (nodes hp))) = nname (nodes hp ! self)"
      "nparent (nodes hp' ! Suc (length (nodes hp))) = Some (length (nodes hp))"
      "ncls (nodes hp' ! Suc (Suc (length (nodes hp)))) = ncls (nodes hp ! b)"
      "nname (nodes hp' ! Suc (Suc (length (nodes hp)))) = nname (nodes hp ! b)"
      "nparent (nodes hp' ! Suc (Suc (length (nodes hp)))) = Some (length (nodes hp))"
      "\<forall>k<length (nodes hp). ncls (nodes hp' ! k) = ncls (nodes hp ! k)
                              \<and> nname (nodes hp' ! k) = nname (nodes hp ! k)"
    using BinaryOperator_new_unchecked [OF assms(1,2) b, of op] by blast
  have p: "parent hp' (length (nodes hp)) = None"
    "parent hp' (Suc (length (nodes hp))) = Some (length (nodes hp))"
    "parent hp' (Suc (Suc (length (nodes hp)))) = Some (length (nodes hp))"
    using rest(3,7,10) n by (simp_all add: parent_def node_at_def)
  have "\<exists>h. f hp self other = (Inr (length (nodes hp)), h)
               \<and> refs_valid h
               \<and> length (nodes h) = length (nodes hp) + 3
               \<and> ncls (nodes h ! length (nodes hp)) = BinaryOperator op
               \<and> nname (nodes h ! length (nodes hp)) = operator_name op
               \<and> parent h (length (nodes hp)) = None
               \<and> children h (length (nodes hp))
                   = Some [Suc (length (nodes hp)), Suc (Suc (length (nodes hp)))]
               \<and> ncls (nodes h ! Suc (length (nodes hp))) = ncls (nodes hp ! self)
               \<and> nname (nodes h ! Suc (length (nodes hp))) = nname (nodes hp ! self)
               \<and> parent h (Suc (length (nodes hp))) = Some (length (nodes hp))
               \<and> parent h (Suc (Suc (length (nodes hp)))) = Some (length (nodes hp))
               \<and> (\<forall>b. other = Ref b \<longrightarrow>
                      ncls (nodes h ! Suc (Suc (length (nodes hp)))) = ncls (nodes hp ! b)
                    \<and> nname (nodes h ! Suc (Suc (length (nodes hp)))) = nname (nodes hp ! b))
               \<and> (\<forall>k<length (nodes hp). ncls (nodes h ! k) = ncls (nodes hp ! k)
                                       \<and> nname (nodes h ! k) = nname (nodes hp ! k))"
    by (rule exI [of _ hp'])
       (use f r v n rest(1,2,4,5,6,8,9,11) p Ref in \<open>intro conjI\<close>, simp_all)
  moreover have "fst (f hp self other) \<noteq> Inl (NotImplementedError [])"
    using f r by simp
  ultimately show ?thesis using Ref by simp
next
  case (IntValue i)
  have "f hp self other = (Inl (NotImplementedError []), hp)"
    using assms(4) IntValue
    by (auto simp: Symbol_add_with_def Symbol_sub_with_def Symbol_mul_with_def Symbol_truediv_with_def)
  then show ?thesis using IntValue by simp
next
  case (StrValue s)
  have "f hp self other = (Inl (NotImplementedError []), hp)"
    using assms(4) StrValue
    by (auto simp: Symbol_add_with_def Symbol_sub_with_def Symbol_mul_with_def Symbol_truediv_with_def)
  then show ?thesis using StrValue by simp
next
  case NoneValue
  have "f hp self other = (Inl (NotImplementedError []), hp)"
    using assms(4) NoneValue
    by (auto simp: Symbol_add_with_def Symbol_sub_with_def Symbol_mul_with_def Symbol_truediv_with_def)
  then show ?thesis using NoneValue by simp
qed

theorem operators_raise_exactly_for_non_symbols_witness:
  "refs_valid heap_sum \<and> 4 < length (nodes heap_sum) \<and> parent heap_sum 4 = Some 3
   \<and> isinstance_Symbol (Ref 1) \<and> \<not> isinstance_Symbol (IntValue 5)
   \<and> Symbol_add_with set_parent_unchecked heap_sum 4 (IntValue 5)
       = (Inl (NotImplementedError []), heap_sum)
   \<and> fst (Symbol_add_with set_parent_unchecked heap_sum 4 (Ref 1)) = Inr 6
   \<and> ncls (nodes (snd (Symbol_add_with set_parent_unchecked heap_sum 4 (Ref 1))) ! 6)
       = BinaryOperator Addition
   \<and> children (snd (Symbol_add_with set_parent_unchecked heap_sum 4 (Ref 1))) 6 = Some [7, 8]"
proof -
  have v: "refs_valid heap_sum" by code_simp
  have a: "4 < length (nodes heap_sum)" by (simp add: heap_sum_nodes)
  have b: "\<forall>b. Ref 1 = Ref b \<longrightarrow> b < length (nodes heap_sum)" by (simp add: heap_sum_nodes)
  have i: "\<forall>b. IntValue 5 = Ref b \<longrightarrow> b < length (nodes heap_sum)" by simp
  have p: "parent heap_sum 4 = Some 3" by code_simp
  show ?thesis
    using v a p
      operators_raise_exactly_for_non_symbols
        [OF v a b, of "Symbol_add_with set_parent_unchecked" Addition]
      operators_raise_exactly_for_non_symbols
        [OF v a i, of "Symbol_add_with set_parent_unchecked" Addition]
    by (auto simp: heap_sum_nodes)
qed

end
